theory Spec2Isabelle
  imports Main "HOL-Library.AList" "HOL-Library.Multiset"
begin

section \<open>Process records and the external store\<close>

text \<open>
  The six lifecycle states of a process (\<^verbatim>\<open>aiida.engine.processes.ProcessState\<close>),
  in the order \<^verbatim>\<open>get_process_states\<close> lists them in \<^verbatim>\<open>process_states_should\<close>.
\<close>

datatype ProcessState = CREATED | WAITING | RUNNING | FINISHED | EXCEPTED | KILLED

fun ps_value :: "ProcessState \<Rightarrow> string" where
  "ps_value CREATED = ''created''"
| "ps_value WAITING = ''waiting''"
| "ps_value RUNNING = ''running''"
| "ps_value FINISHED = ''finished''"
| "ps_value EXCEPTED = ''excepted''"
| "ps_value KILLED = ''killed''"

text \<open>
  A process node as this layer reads it. Times are seconds on the clock of the
  \<open>World\<close> below.
\<close>

record ProcessNode =
  pk :: nat
  uuid :: string
  label :: string
  description :: string
  process_label :: string
  process_state :: ProcessState
  exit_status :: "int option"
  paused :: bool
  ctime :: int
  mtime :: int

definition is_finished :: "ProcessNode \<Rightarrow> bool" where
  "is_finished p = (process_state p = FINISHED)"

definition is_finished_ok :: "ProcessNode \<Rightarrow> bool" where
  "is_finished_ok p = (is_finished p \<and> exit_status p = Some 0)"

definition is_terminated :: "ProcessNode \<Rightarrow> bool" where
  "is_terminated p =
     (process_state p = EXCEPTED \<or> process_state p = FINISHED \<or> process_state p = KILLED)"

text \<open>
  \<^verbatim>\<open>get_process_states(terminated, as_string=True, with_legend=False)\<close>:
  \<open>None\<close> gives all states, \<open>Some True\<close> the terminated ones, \<open>Some False\<close> the others.
\<close>

definition states_subset :: "bool option \<Rightarrow> ProcessState list" where
  "states_subset terminated =
     (case terminated of
        None \<Rightarrow> [CREATED, WAITING, RUNNING, FINISHED, EXCEPTED, KILLED]
      | Some t \<Rightarrow> if t then [FINISHED, EXCEPTED, KILLED] else [CREATED, WAITING, RUNNING])"

definition get_process_states :: "bool option \<Rightarrow> string list" where
  "get_process_states terminated = map ps_value (states_subset terminated)"

text \<open>
  The store of the workflow engine: its process nodes and its groups, a group being
  its label and the pks of its members (the database keeps group labels unique).
  A \<^verbatim>\<open>Group\<close> object is represented by its label.
\<close>

record Store =
  nodes :: "ProcessNode list"
  groups :: "(string \<times> nat list) list"

text \<open>
  A \<^verbatim>\<open>ProcessBuilder\<close>: \<^verbatim>\<open>metadata.label\<close>, \<^verbatim>\<open>metadata.description\<close>, the name of
  \<^verbatim>\<open>_process_class\<close>, and, for a builder from \<^verbatim>\<open>get_builder_restart\<close>, the pk it restarts.
\<close>

record Builder =
  metadata_label :: string
  metadata_description :: string
  process_class_name :: string
  restart_of :: "nat option"

text \<open>
  What the code does to the outside, in order: the messages it prints and the calls it
  makes to the engine, the store, the quota querier and the clock.
\<close>

datatype Event =
    Warn_delete_if_stalling_unsupported
  | Info_found_multiple nat
  | Info_loaded_finished_ok
  | Info_loaded_terminated
  | Info_not_terminated
  | Info_staging_submit bool bool bool
  | Info_stalling nat bool
  | Info_try_submit int
  | Info_submitted nat
  | Info_dry_run_would_submit
  | Warn_timed_out int
  | Info_found_temporary_groups
  | Info_deleted_group string
  | Ev_query string
  | Ev_count_running nat
  | Ev_load_node nat
  | Ev_quota_check
  | Ev_get_builder_restart nat
  | Ev_submit Builder
  | Ev_add_nodes string "nat list"
  | Ev_delete_nodes nat
  | Ev_sleep int
  | Ev_group_created string
  | Ev_group_deleted string

record World =
  store :: Store
  clock :: int
  trace :: "Event list"

definition emit :: "Event \<Rightarrow> World \<Rightarrow> World" where
  "emit e w = w\<lparr>trace := trace w @ [e]\<rparr>"

datatype Error = ValueError | TypeError | IndexError | IOError | NotExistent | AttributeError

text \<open>
  The collaborators this layer calls and does not define: how the store matches a
  \<^verbatim>\<open>process_label\<close> filter (\<^verbatim>\<open>CalculationQueryBuilder.get_filters\<close> chooses between
  equality and LIKE), its LIKE operator on group labels, what the rest of the world does
  to the store while the caller sleeps (given the time the sleep starts and its length),
  \<^verbatim>\<open>aiida.engine.submit\<close>, \<^verbatim>\<open>delete_nodes\<close> and \<^verbatim>\<open>get_builder_restart\<close>. Every theorem
  below holds for every engine.
\<close>

record Engine =
  process_label_filter :: "string \<Rightarrow> string \<Rightarrow> bool"
  label_like :: "string \<Rightarrow> string \<Rightarrow> bool"
  evolve :: "int \<Rightarrow> nat \<Rightarrow> Store \<Rightarrow> Store"
  submit :: "Builder \<Rightarrow> int \<Rightarrow> Store \<Rightarrow> ProcessNode \<times> Store"
  delete_nodes :: "nat list \<Rightarrow> Store \<Rightarrow> Store"
  get_builder_restart :: "ProcessNode \<Rightarrow> Builder"

section \<open>The process query facade\<close>

text \<open>
  The filters of \<^verbatim>\<open>query_processes\<close> on one node (\<^verbatim>\<open>node_types\<close> left at its default:
  every node of the store is a process node). Python's truth test decides whether a
  filter is set: an empty label, an empty list and a zero timedelta set none.
\<close>

definition truthy :: "'a list option \<Rightarrow> bool" where
  "truthy v = (case v of None \<Rightarrow> False | Some xs \<Rightarrow> xs \<noteq> [])"

definition matches_filters ::
  "Engine \<Rightarrow> int \<Rightarrow> string option \<Rightarrow> string option \<Rightarrow> string list option \<Rightarrow>
   int list option \<Rightarrow> bool \<Rightarrow> bool \<Rightarrow> int option \<Rightarrow> ProcessNode \<Rightarrow> bool" where
  "matches_filters eng now lbl plabel pstates exit_statuses failed only_paused timedelta p =
     (let pstates' = (if truthy exit_statuses then Some [''finished''] else pstates) in
      (if failed then process_state p = FINISHED \<and>
                      (case exit_status p of None \<Rightarrow> False | Some es \<Rightarrow> 0 < es)
       else (truthy pstates' \<longrightarrow> ps_value (process_state p) \<in> set (the pstates')) \<and>
            (truthy exit_statuses \<longrightarrow>
               (case exit_status p of None \<Rightarrow> False
                | Some es \<Rightarrow> es \<in> set (the exit_statuses)))) \<and>
      (case plabel of None \<Rightarrow> True
       | Some pl \<Rightarrow> process_label_filter eng pl (process_label p)) \<and>
      (only_paused \<longrightarrow> paused p) \<and>
      (truthy lbl \<longrightarrow> label p = the lbl) \<and>
      (case timedelta of None \<Rightarrow> True
       | Some d \<Rightarrow> d = 0 \<or> now - d < ctime p))"

definition group_members :: "Store \<Rightarrow> string \<Rightarrow> nat list" where
  "group_members st g = (case map_of (groups st) g of None \<Rightarrow> [] | Some ms \<Rightarrow> ms)"

text \<open>
  \<^verbatim>\<open>query_processes(...).all(flat=True)\<close>: the matching nodes, of the whole store or
  of the members of the group.
\<close>

definition query_processes ::
  "Engine \<Rightarrow> World \<Rightarrow> string option \<Rightarrow> string option \<Rightarrow> string list option \<Rightarrow>
   int list option \<Rightarrow> bool \<Rightarrow> bool \<Rightarrow> string option \<Rightarrow> int option \<Rightarrow> ProcessNode list" where
  "query_processes eng w lbl plabel pstates exit_statuses failed only_paused grp timedelta =
     (let flt = matches_filters eng (clock w) lbl plabel pstates exit_statuses failed
                  only_paused timedelta
      in case grp of
           None \<Rightarrow> filter flt (nodes (store w))
         | Some g \<Rightarrow>
             filter (\<lambda>p. pk p \<in> set (group_members (store w) g) \<and> flt p) (nodes (store w)))"

section \<open>The submission supervisor\<close>

text \<open>The dataclass \<^verbatim>\<open>SubmissionSupervisorSettings\<close>; the wait attributes are minutes.\<close>

record SubmissionSupervisorSettings =
  dry_run :: bool
  max_top_processes_running :: int
  max_all_processes_running :: int
  wait_for_submit :: int
  max_wait_for_submit :: int
  wait_after_submit :: int
  resubmit_failed :: bool
  resubmit_failed_as_restart :: bool
  delete_if_stalling :: bool
  delete_if_stalling_dry_run :: bool
  max_wait_for_stalling :: int

text \<open>The defaults of the dataclass fields.\<close>

definition default_settings :: SubmissionSupervisorSettings where
  "default_settings =
     \<lparr>dry_run = False, max_top_processes_running = 10, max_all_processes_running = 100,
      wait_for_submit = 5, max_wait_for_submit = 120, wait_after_submit = 2,
      resubmit_failed = True, resubmit_failed_as_restart = True,
      delete_if_stalling = False, delete_if_stalling_dry_run = False,
      max_wait_for_stalling = 240\<rparr>"

text \<open>
  The quota querier is an external collaborator: its answer may depend on when it is
  asked.
\<close>

record QuotaQuerier =
  min_free_space :: string
  is_min_free_space_left :: "int \<Rightarrow> bool"

record SubmissionSupervisor =
  settings :: SubmissionSupervisorSettings
  quotaq :: "QuotaQuerier option"
  submitted_top_processes :: "ProcessNode list"

text \<open>\<^verbatim>\<open>__tmp_guard_against_delete_if_stalling\<close>.\<close>

definition tmp_guard_against_delete_if_stalling ::
  "SubmissionSupervisor \<Rightarrow> World \<Rightarrow> SubmissionSupervisor \<times> World" where
  "tmp_guard_against_delete_if_stalling sv w =
     (if delete_if_stalling (settings sv) then
        (sv\<lparr>settings := (settings sv)\<lparr>delete_if_stalling := False,
                                          delete_if_stalling_dry_run := True\<rparr>\<rparr>,
         emit Warn_delete_if_stalling_unsupported w)
      else (sv, w))"

text \<open>\<^verbatim>\<open>SubmissionSupervisor.__init__\<close>: the guard runs on the settings just stored.\<close>

definition SubmissionSupervisor_init ::
  "SubmissionSupervisorSettings \<Rightarrow> QuotaQuerier option \<Rightarrow> World \<Rightarrow>
   SubmissionSupervisor \<times> World" where
  "SubmissionSupervisor_init s quota_querier w =
     (let (sv, w') = tmp_guard_against_delete_if_stalling
                        \<lparr>settings = s, quotaq = None, submitted_top_processes = []\<rparr> w
      in (sv\<lparr>quotaq := quota_querier, submitted_top_processes := []\<rparr>, w'))"

text \<open>
  The \<^verbatim>\<open>groups\<close> argument of \<^verbatim>\<open>blocking_submit\<close>: left at its default \<^verbatim>\<open>None\<close>, one
  \<^verbatim>\<open>Group\<close>, or a list of them. A single group is wrapped into a list; iterating over
  \<^verbatim>\<open>None\<close> is Python's TypeError.
\<close>

datatype GroupsArg = NoGroups | OneGroup string | GroupList "string list"

fun groups_list :: "GroupsArg \<Rightarrow> string list option" where
  "groups_list NoGroups = None"
| "groups_list (OneGroup g) = Some [g]"
| "groups_list (GroupList gs) = Some gs"

text \<open>\<^verbatim>\<open>time.sleep\<close>: a negative length is a ValueError; the world moves on meanwhile.\<close>

definition sleep :: "Engine \<Rightarrow> int \<Rightarrow> World \<Rightarrow> Error + World" where
  "sleep eng secs w =
     (if secs < 0 then Inl ValueError
      else Inr (emit (Ev_sleep secs)
                  (w\<lparr>store := evolve eng (clock w) (nat secs) (store w),
                     clock := clock w + secs\<rparr>)))"

definition seconds_per_min :: "SubmissionSupervisorSettings \<Rightarrow> int" where
  "seconds_per_min s = (if dry_run s then 1 else 60)"

text \<open>
  \<^verbatim>\<open>load_node(pk)\<close> and \<^verbatim>\<open>Group.add_nodes\<close> of the framework: loading a pk the store does
  not hold fails, adding an unstored node fails, a node already in the group is skipped.
\<close>

definition load_node :: "nat \<Rightarrow> World \<Rightarrow> (Error + ProcessNode) \<times> World" where
  "load_node k w =
     (case find (\<lambda>p. pk p = k) (nodes (store w)) of
        None \<Rightarrow> (Inl NotExistent, emit (Ev_load_node k) w)
      | Some p \<Rightarrow> (Inr p, emit (Ev_load_node k) w))"

definition insert_members :: "nat list \<Rightarrow> nat list \<Rightarrow> nat list" where
  "insert_members ks ms = fold (\<lambda>k acc. if k \<in> set acc then acc else acc @ [k]) ks ms"

definition add_nodes :: "string \<Rightarrow> ProcessNode list \<Rightarrow> World \<Rightarrow> Error + World" where
  "add_nodes g ps w =
     (if list_ex (\<lambda>p. pk p \<notin> set (map pk (nodes (store w)))) ps then Inl ValueError
      else case map_of (groups (store w)) g of
             None \<Rightarrow> Inl NotExistent
           | Some ms \<Rightarrow>
               Inr (emit (Ev_add_nodes g (map pk ps))
                      (w\<lparr>store := (store w)\<lparr>groups :=
                            AList.update g (insert_members (map pk ps) ms)
                              (groups (store w))\<rparr>\<rparr>)))"

text \<open>Lines 661 to 664: the matches of every group, one query per group.\<close>

fun query_groups ::
  "Engine \<Rightarrow> string \<Rightarrow> string \<Rightarrow> string list \<Rightarrow> World \<Rightarrow> ProcessNode list \<times> World" where
  "query_groups eng wc_label wc_process_label [] w = ([], w)"
| "query_groups eng wc_label wc_process_label (g # gs) w =
     (let found = query_processes eng w (Some wc_label) (Some wc_process_label) None None
                    False False (Some g) None;
          (rest, w') = query_groups eng wc_label wc_process_label gs (emit (Ev_query g) w)
      in (found @ rest, w'))"

text \<open>Lines 666 to 674: a workchain found in several groups is kept once, by uuid.\<close>

fun remove_duplicates :: "string list \<Rightarrow> ProcessNode list \<Rightarrow> ProcessNode list" where
  "remove_duplicates wc_uuids [] = []"
| "remove_duplicates wc_uuids (wc # wcs) =
     (if uuid wc \<in> set wc_uuids then remove_duplicates wc_uuids wcs
      else wc # remove_duplicates (wc_uuids @ [uuid wc]) wcs)"

text \<open>
  \<^verbatim>\<open>num_running(granularity)\<close>: 0 counts the processes of the builder's process label that
  are not terminated, 1 all processes that are not terminated.
\<close>

definition num_running :: "Engine \<Rightarrow> string \<Rightarrow> nat \<Rightarrow> World \<Rightarrow> int \<times> World" where
  "num_running eng wc_process_label granularity w =
     (if granularity = 0 then
        (int (length (query_processes eng w None (Some wc_process_label)
                        (Some (get_process_states (Some False))) None False False None None)),
         emit (Ev_count_running granularity) w)
      else
        (int (length (query_processes eng w None None
                        (Some (get_process_states (Some False))) None False False None None)),
         emit (Ev_count_running granularity) w))"

text \<open>
  The nested function \<^verbatim>\<open>stalling(wc)\<close>: the modification time is read from the store
  (from the tracked object when the store no longer holds the node), and the nodes are
  deleted unless \<^verbatim>\<open>delete_if_stalling_dry_run\<close> is set.
\<close>

definition node_mtime :: "Store \<Rightarrow> ProcessNode \<Rightarrow> int" where
  "node_mtime st wc =
     (case find (\<lambda>p. pk p = pk wc) (nodes st) of None \<Rightarrow> mtime wc | Some p \<Rightarrow> mtime p)"

definition is_stalling :: "SubmissionSupervisorSettings \<Rightarrow> ProcessNode \<Rightarrow> World \<Rightarrow> bool" where
  "is_stalling s wc w = (60 * max_wait_for_stalling s < clock w - node_mtime (store w) wc)"

definition stalling ::
  "Engine \<Rightarrow> SubmissionSupervisorSettings \<Rightarrow> ProcessNode \<Rightarrow> World \<Rightarrow> bool \<times> World" where
  "stalling eng s wc w =
     (if is_stalling s wc w then
        (let w1 = emit (Info_stalling (pk wc) (delete_if_stalling_dry_run s)) w in
         if \<not> delete_if_stalling_dry_run s then
           (True, emit (Ev_delete_nodes (pk wc))
                    (w1\<lparr>store := delete_nodes eng [pk wc] (store w1)\<rparr>))
         else (True, w1))
      else (False, w))"

text \<open>Lines 790 and 791: the tracked list keeps the entries that are not stalling.\<close>

fun remove_stalling ::
  "Engine \<Rightarrow> SubmissionSupervisorSettings \<Rightarrow> ProcessNode list \<Rightarrow> World \<Rightarrow>
   ProcessNode list \<times> World" where
  "remove_stalling eng s [] w = ([], w)"
| "remove_stalling eng s (wc # wcs) w =
     (let (gone, w1) = stalling eng s wc w;
          (rest, w2) = remove_stalling eng s wcs w1
      in (if gone then rest else wc # rest, w2))"

text \<open>
  Line 793: the ceilings are surpassed. Python's \<^verbatim>\<open>or\<close> asks for the second count only
  when the first ceiling holds.
\<close>

definition queue_too_full ::
  "Engine \<Rightarrow> SubmissionSupervisorSettings \<Rightarrow> string \<Rightarrow> World \<Rightarrow> bool \<times> World" where
  "queue_too_full eng s wc_process_label w =
     (let (n0, w1) = num_running eng wc_process_label 0 w in
      if max_top_processes_running s < n0 then (True, w1)
      else (let (n1, w2) = num_running eng wc_process_label 1 w1
            in (max_all_processes_running s < n1, w2)))"

text \<open>Lines 805 and 806: the submitted process joins every group, in order.\<close>

fun add_to_groups :: "string list \<Rightarrow> ProcessNode \<Rightarrow> World \<Rightarrow> Error option \<times> World" where
  "add_to_groups [] p w = (None, w)"
| "add_to_groups (g # gs) p w =
     (case add_nodes g [p] w of
        Inl e \<Rightarrow> (Some e, w)
      | Inr w' \<Rightarrow> add_to_groups gs p w')"

type_synonym Outcome = "Error + (ProcessNode option \<times> bool option)"

text \<open>
  Lines 798 to 814, the branch that submits. The result is the outcome, the tracked list
  and the world.
\<close>

definition try_submit ::
  "Engine \<Rightarrow> SubmissionSupervisorSettings \<Rightarrow> Builder \<Rightarrow> string \<Rightarrow> string list \<Rightarrow> int \<Rightarrow>
   ProcessNode list \<Rightarrow> World \<Rightarrow> Outcome \<times> ProcessNode list \<times> World" where
  "try_submit eng s b wc_process_label gs waited_for_submit tracked w =
     (let (n0, w1) = num_running eng wc_process_label 0 w;
          (n1, w2) = num_running eng wc_process_label 1 w1;
          w3 = emit (Info_try_submit waited_for_submit) w2
      in if \<not> dry_run s then
           (let (next_process, st') = submit eng b (clock w3) (store w3);
                w4 = emit (Ev_submit b) (w3\<lparr>store := st'\<rparr>);
                tracked' = tracked @ [next_process]
            in case add_to_groups gs next_process w4 of
                 (Some e, w5) \<Rightarrow> (Inl e, tracked', w5)
               | (None, w5) \<Rightarrow>
                   (let w6 = emit (Info_submitted (pk next_process)) w5 in
                    case sleep eng (wait_after_submit s * seconds_per_min s) w6 of
                      Inl e \<Rightarrow> (Inl e, tracked', w6)
                    | Inr w7 \<Rightarrow> (Inr (Some next_process, Some False), tracked', w7)))
         else (Inr (None, Some False), tracked, emit Info_dry_run_would_submit w3))"

text \<open>
  Lines 761 to 819, the waiting line. The fuel bounds how often the loop condition is
  tested: the loop need not end (a \<^verbatim>\<open>wait_for_submit\<close> of 0 under a full queue), and
  \<open>None\<close> says it did not end within the fuel. When the condition fails the submission
  has timed out.
\<close>

fun submit_loop ::
  "nat \<Rightarrow> Engine \<Rightarrow> SubmissionSupervisorSettings \<Rightarrow> Builder \<Rightarrow> string \<Rightarrow> string list \<Rightarrow>
   int \<Rightarrow> ProcessNode list \<Rightarrow> World \<Rightarrow> (Outcome \<times> ProcessNode list \<times> World) option" where
  "submit_loop 0 eng s b wc_process_label gs waited_for_submit tracked w = None"
| "submit_loop (Suc fuel) eng s b wc_process_label gs waited_for_submit tracked w =
     (if waited_for_submit \<le> max_wait_for_submit s then
        (let (tracked1, w1) =
               (if delete_if_stalling s \<or>
                   (\<not> delete_if_stalling s \<and> delete_if_stalling_dry_run s)
                then remove_stalling eng s tracked w else (tracked, w));
             (too_full, w2) = queue_too_full eng s wc_process_label w1
         in if too_full then
              (case sleep eng (wait_for_submit s * seconds_per_min s) w2 of
                 Inl e \<Rightarrow> Some (Inl e, tracked1, w2)
               | Inr w3 \<Rightarrow>
                   submit_loop fuel eng s b wc_process_label gs
                     (waited_for_submit + wait_for_submit s) tracked1 w3)
            else Some (try_submit eng s b wc_process_label gs waited_for_submit tracked1 w2))
      else Some (Inr (None, None), tracked, emit (Warn_timed_out waited_for_submit) w))"

text \<open>
  Lines 726 to 753: the builder that will be submitted. With both retry flags set the
  code takes the first terminated match, which Python refuses on an empty list.
\<close>

definition stage_builder ::
  "Engine \<Rightarrow> SubmissionSupervisorSettings \<Rightarrow> Builder \<Rightarrow> ProcessNode list \<Rightarrow> World \<Rightarrow>
   (Error + Builder) \<times> World" where
  "stage_builder eng s builder workchains_terminated w =
     (if resubmit_failed s then
        (if resubmit_failed_as_restart s then
           (case workchains_terminated of
              [] \<Rightarrow> (Inl IndexError, w)
            | wc_failed_first # _ \<Rightarrow>
                (let b = (get_builder_restart eng wc_failed_first)
                           \<lparr>metadata_label := metadata_label builder,
                            metadata_description := metadata_description builder\<rparr>;
                     w1 = emit (Ev_get_builder_restart (pk wc_failed_first)) w
                 in (Inr b,
                     emit (Info_staging_submit True True
                             (metadata_label builder \<noteq> label wc_failed_first \<or>
                              metadata_description builder \<noteq> description wc_failed_first))
                       w1)))
         else (Inr builder, emit (Info_staging_submit True False False) w))
      else (Inr builder, emit (Info_staging_submit False False False) w))"

text \<open>Lines 722 to 819: stage the builder, ask the quota querier, wait in line.\<close>

definition submit_branch ::
  "nat \<Rightarrow> Engine \<Rightarrow> SubmissionSupervisor \<Rightarrow> Builder \<Rightarrow> string \<Rightarrow> string list \<Rightarrow>
   ProcessNode list \<Rightarrow> World \<Rightarrow> (Outcome \<times> SubmissionSupervisor \<times> World) option" where
  "submit_branch fuel eng sv builder wc_process_label gs workchains_terminated w =
     (case stage_builder eng (settings sv) builder workchains_terminated w of
        (Inl e, w1) \<Rightarrow> Some (Inl e, sv, w1)
      | (Inr b, w1) \<Rightarrow>
          (case quotaq sv of
             None \<Rightarrow>
               map_option (\<lambda>(r, tracked, w'). (r, sv\<lparr>submitted_top_processes := tracked\<rparr>, w'))
                 (submit_loop fuel eng (settings sv) b wc_process_label gs 0
                    (submitted_top_processes sv) w1)
           | Some q \<Rightarrow>
               (if \<not> is_min_free_space_left q (clock w1)
                then Some (Inl IOError, sv, emit Ev_quota_check w1)
                else map_option
                       (\<lambda>(r, tracked, w'). (r, sv\<lparr>submitted_top_processes := tracked\<rparr>, w'))
                       (submit_loop fuel eng (settings sv) b wc_process_label gs 0
                          (submitted_top_processes sv) (emit Ev_quota_check w1)))))"

text \<open>
  \<^verbatim>\<open>SubmissionSupervisor.blocking_submit(builder, groups)\<close>. The result is the returned
  pair or the exception raised, with the supervisor and the world as the call leaves
  them.
\<close>

definition blocking_submit ::
  "nat \<Rightarrow> Engine \<Rightarrow> SubmissionSupervisor \<Rightarrow> Builder \<Rightarrow> GroupsArg \<Rightarrow> World \<Rightarrow>
   (Outcome \<times> SubmissionSupervisor \<times> World) option" where
  "blocking_submit fuel eng sv0 builder groups_arg w0 =
     (let (sv, w) = tmp_guard_against_delete_if_stalling sv0 w0;
          wc_label = metadata_label builder
      in if wc_label = [] then Some (Inl ValueError, sv, w)
         else
           (let wc_process_label = process_class_name builder in
            case groups_list groups_arg of
              None \<Rightarrow> Some (Inl TypeError, sv, w)
            | Some gs \<Rightarrow>
                (let (found, w1) = query_groups eng wc_label wc_process_label gs w;
                     workchains = remove_duplicates [] found;
                     workchains_finished_ok = filter is_finished_ok workchains;
                     workchains_terminated = filter is_terminated workchains;
                     workchains_not_terminated =
                       filter (\<lambda>proc. \<not> is_terminated proc) workchains;
                     w2 = (if 1 < length workchains
                           then emit (Info_found_multiple (length workchains)) w1 else w1)
                 in case workchains_finished_ok of
                      wc # _ \<Rightarrow>
                        (case load_node (pk wc) w2 of
                           (Inl e, w3) \<Rightarrow> Some (Inl e, sv, w3)
                         | (Inr next_process, w3) \<Rightarrow>
                             Some (Inr (Some next_process, Some True), sv,
                                   emit Info_loaded_finished_ok w3))
                    | [] \<Rightarrow>
                        (if workchains_terminated \<noteq> [] \<and> \<not> resubmit_failed (settings sv) then
                           (case load_node (pk (hd workchains_terminated)) w2 of
                              (Inl e, w3) \<Rightarrow> Some (Inl e, sv, w3)
                            | (Inr next_process, w3) \<Rightarrow>
                                Some (Inr (Some next_process, Some True), sv,
                                      emit Info_loaded_terminated w3))
                         else if workchains_not_terminated \<noteq> [] then
                           (case load_node (pk (hd workchains_not_terminated)) w2 of
                              (Inl e, w3) \<Rightarrow> Some (Inl e, sv, w3)
                            | (Inr next_process, w3) \<Rightarrow>
                                Some (Inr (Some next_process, Some False),
                                      sv\<lparr>submitted_top_processes :=
                                            submitted_top_processes sv @ [next_process]\<rparr>,
                                      emit Info_not_terminated w3))
                         else submit_branch fuel eng sv builder wc_process_label gs
                                workchains_terminated w2))))"

section \<open>The process classifier\<close>

definition TMP_GROUP_LABEL_PREFIX :: string where
  "TMP_GROUP_LABEL_PREFIX = ''process_classification''"

definition finished :: string where
  "finished = ps_value FINISHED"

text \<open>
  The dictionary \<^verbatim>\<open>classified_by_state\<close>: under a state other than finished a list of
  processes, under finished a dictionary from exit status to a list of processes. A
  dictionary is an association list in insertion order. The classification by type is
  left out: no property below reads it.
\<close>

datatype Bucket =
    Processes "ProcessNode list"
  | ByExitStatus "(int option \<times> ProcessNode list) list"

record ProcessClassifier =
  unclassified_processes :: "ProcessNode list option"
  classified_by_state :: "(string \<times> Bucket) list"

text \<open>
  Modelled from the spec: \<^verbatim>\<open>util_group.delete_groups\<close> is a module of this repository
  that the sources do not hold. The spec lists the group operation
  \<^emph>\<open>delete (with an option to refuse deleting non-empty groups)\<close>: the groups of the
  given labels are deleted, a non-empty one only when \<^verbatim>\<open>skip_nonempty_groups\<close> is off,
  and each deletion is reported unless \<^verbatim>\<open>silent\<close> is set.
\<close>

definition delete_groups :: "string list \<Rightarrow> bool \<Rightarrow> bool \<Rightarrow> World \<Rightarrow> World" where
  "delete_groups group_labels skip_nonempty_groups silent w =
     (let doomed = (\<lambda>(l, ms). l \<in> set group_labels \<and> (ms = [] \<or> \<not> skip_nonempty_groups))
      in w\<lparr>store := (store w)\<lparr>groups := filter (\<lambda>g. \<not> doomed g) (groups (store w))\<rparr>,
            trace := trace w @
              concat (map (\<lambda>(l, ms). if silent then [Ev_group_deleted l]
                                      else [Ev_group_deleted l, Info_deleted_group l])
                        (filter doomed (groups (store w))))\<rparr>)"

text \<open>
  \<^verbatim>\<open>ProcessClassifier.__init__\<close>: temporary groups left by earlier instances, found by
  the store's LIKE on the label prefix, are deleted with a message.
\<close>

definition ProcessClassifier_init ::
  "Engine \<Rightarrow> ProcessNode list option \<Rightarrow> World \<Rightarrow> ProcessClassifier \<times> World" where
  "ProcessClassifier_init eng processes w =
     (let temporary_groups =
            filter (\<lambda>(l, ms). label_like eng (TMP_GROUP_LABEL_PREFIX @ ''%'') l)
              (groups (store w))
      in (\<lparr>unclassified_processes = processes, classified_by_state = []\<rparr>,
          if temporary_groups \<noteq> []
          then delete_groups (map fst temporary_groups) False False
                 (emit Info_found_temporary_groups w)
          else w))"

text \<open>
  \<^verbatim>\<open>_group_for_classification\<close>. The label joins the prefix, a time stamp and a random
  string; the list of names is what the clock and the random generator yield, try by
  try. The loop runs until a label is not in use, so \<open>None\<close> says that none of the given
  names was free. The group is stored first and populated next: populating fails on
  \<^verbatim>\<open>None\<close> (the default of the constructor's argument) and on an unstored node, and the
  stored group stays.
\<close>

definition tmp_group_label :: "string \<times> string \<Rightarrow> string" where
  "tmp_group_label name =
     TMP_GROUP_LABEL_PREFIX @ ''_'' @ fst name @ ''_'' @ snd name"

definition store_group :: "string \<Rightarrow> World \<Rightarrow> World" where
  "store_group g w =
     emit (Ev_group_created g) (w\<lparr>store := (store w)\<lparr>groups := groups (store w) @ [(g, [])]\<rparr>\<rparr>)"

fun group_for_classification ::
  "(string \<times> string) list \<Rightarrow> ProcessClassifier \<Rightarrow> World \<Rightarrow> ((Error + string) \<times> World) option" where
  "group_for_classification [] clf w = None"
| "group_for_classification (name # names) clf w =
     (case map_of (groups (store w)) (tmp_group_label name) of
        Some ms \<Rightarrow> group_for_classification names clf w
      | None \<Rightarrow>
          (let w1 = store_group (tmp_group_label name) w in
           case unclassified_processes clf of
             None \<Rightarrow> Some (Inl TypeError, w1)
           | Some ps \<Rightarrow>
               (case add_nodes (tmp_group_label name) ps w1 of
                  Inl e \<Rightarrow> Some (Inl e, w1)
                | Inr w2 \<Rightarrow> Some (Inr (tmp_group_label name), w2))))"

text \<open>The nested function \<^verbatim>\<open>_get_processes(state)\<close> of \<^verbatim>\<open>classify_by_state\<close>.\<close>

definition get_processes :: "Engine \<Rightarrow> string \<Rightarrow> string \<Rightarrow> World \<Rightarrow> ProcessNode list" where
  "get_processes eng tmp_classification_group state w =
     query_processes eng w None None (Some [state]) None False False
       (Some tmp_classification_group) None"

text \<open>
  Lines 287 to 291: each finished process is appended to the list under its exit status,
  a list that is started when the dictionary has none (or an empty one) there.
\<close>

fun by_exit_status ::
  "ProcessNode list \<Rightarrow> (int option \<times> ProcessNode list) list \<Rightarrow>
   (int option \<times> ProcessNode list) list" where
  "by_exit_status [] d = d"
| "by_exit_status (process # ps) d =
     (let es = exit_status process;
          d1 = (if (case map_of d es of None \<Rightarrow> True | Some l \<Rightarrow> l = [])
                then AList.update es [] d else d);
          d2 = AList.update es ((case map_of d1 es of None \<Rightarrow> [] | Some l \<Rightarrow> l) @ [process]) d1
      in by_exit_status ps d2)"

text \<open>
  \<^verbatim>\<open>classify_by_state\<close>. The result is the exception raised, if one is, with the
  classifier and the world as the call leaves them. The six queries leave their mark in
  the trace.
\<close>

definition classify_by_state ::
  "Engine \<Rightarrow> (string \<times> string) list \<Rightarrow> ProcessClassifier \<Rightarrow> World \<Rightarrow>
   (Error option \<times> ProcessClassifier \<times> World) option" where
  "classify_by_state eng names clf w =
     (case group_for_classification names clf w of
        None \<Rightarrow> None
      | Some (Inl e, w1) \<Rightarrow> Some (Some e, clf, w1)
      | Some (Inr tmp_classification_group, w1) \<Rightarrow>
          (let states = remove1 finished (get_process_states None);
               classified =
                 fold (\<lambda>state d.
                         AList.update state
                           (Processes (get_processes eng tmp_classification_group state w1)) d)
                   states [];
               finished_processes = get_processes eng tmp_classification_group finished w1;
               classified1 =
                 AList.update finished (ByExitStatus (by_exit_status finished_processes []))
                   classified;
               w2 = w1\<lparr>trace := trace w1 @
                       map (\<lambda>state. Ev_query tmp_classification_group) (states @ [finished])\<rparr>
           in Some (None, clf\<lparr>classified_by_state := classified1\<rparr>,
                    delete_groups [tmp_classification_group] False True w2)))"

text \<open>
  \<^verbatim>\<open>count(process_states)\<close>: the sizes of the buckets of the given states, of all states
  by default. Under a state other than finished Python's \<^verbatim>\<open>len\<close> is taken of what the
  dictionary holds; under finished the values of the inner dictionary are summed, which
  a list does not have.
\<close>

fun count_states :: "(string \<times> Bucket) list \<Rightarrow> string list \<Rightarrow> nat \<Rightarrow> Error + nat" where
  "count_states classified [] total' = Inr total'"
| "count_states classified (state # rest) total' =
     (if state \<noteq> finished then
        count_states classified rest
          (total' + (case map_of classified state of
                      None \<Rightarrow> 0
                    | Some (Processes l) \<Rightarrow> length l
                    | Some (ByExitStatus d) \<Rightarrow> length d))
      else
        (case map_of classified state of
           None \<Rightarrow> count_states classified rest total'
         | Some (Processes l) \<Rightarrow>
             if l = [] then count_states classified rest total' else Inl AttributeError
         | Some (ByExitStatus d) \<Rightarrow>
             if d = [] then count_states classified rest total'
             else count_states classified rest (total' + sum_list (map (\<lambda>(k, v). length v) d))))"

definition count :: "ProcessClassifier \<Rightarrow> string list option \<Rightarrow> Error + nat" where
  "count clf process_states =
     count_states (classified_by_state clf)
       (if truthy process_states then the process_states else get_process_states None) 0"
section \<open>Auxiliary definitions and example data\<close>

text \<open>
  The matches a call works on (lines 661 to 674): the query results of all groups with
  duplicates removed.
\<close>

definition existing_matches :: "Engine \<Rightarrow> Builder \<Rightarrow> string list \<Rightarrow> World \<Rightarrow> ProcessNode list" where
  "existing_matches eng builder gs w =
     remove_duplicates []
       (fst (query_groups eng (metadata_label builder) (process_class_name builder) gs w))"

text \<open>
  The events of the waiting line: counting running processes, sleeping, submitting,
  adding to a group and deleting nodes.
\<close>

fun admission_event :: "Event \<Rightarrow> bool" where
  "admission_event (Ev_sleep n) = True"
| "admission_event (Ev_count_running g) = True"
| "admission_event (Ev_submit b) = True"
| "admission_event (Ev_add_nodes g ks) = True"
| "admission_event (Ev_delete_nodes k) = True"
| "admission_event (Info_try_submit n) = True"
| "admission_event e = False"

text \<open>
  Example data for the concrete instances below: an engine in a world that stands still,
  a builder labelled A, two process nodes, a store with one group g, a supervisor with
  no quota querier, and a quota querier that never finds space.
\<close>

definition static_engine :: Engine where
  "static_engine =
     \<lparr>process_label_filter = (=),
      label_like = (\<lambda>pat l. take (length pat - 1) l = butlast pat),
      evolve = (\<lambda>t n st. st),
      submit = (\<lambda>b t st.
         (let p = \<lparr>pk = Suc (fold max (map pk (nodes st)) 0), uuid = metadata_label b,
                   label = metadata_label b, description = metadata_description b,
                   process_label = process_class_name b, process_state = CREATED,
                   exit_status = None, paused = False, ctime = t, mtime = t\<rparr>
          in (p, st\<lparr>nodes := nodes st @ [p]\<rparr>))),
      delete_nodes = (\<lambda>ks st. st\<lparr>nodes := filter (\<lambda>p. pk p \<notin> set ks) (nodes st)\<rparr>),
      get_builder_restart = (\<lambda>p.
         \<lparr>metadata_label = [], metadata_description = [],
          process_class_name = process_label p, restart_of = Some (pk p)\<rparr>)\<rparr>"

definition builder_A :: Builder where
  "builder_A = \<lparr>metadata_label = ''A'', metadata_description = ''d'',
                 process_class_name = ''wc'', restart_of = None\<rparr>"

definition node_A_ok :: ProcessNode where
  "node_A_ok = \<lparr>pk = 1, uuid = ''u1'', label = ''A'', description = ''d'',
                 process_label = ''wc'', process_state = FINISHED, exit_status = Some 0,
                 paused = False, ctime = 0, mtime = 0\<rparr>"

definition node_B_running :: ProcessNode where
  "node_B_running = \<lparr>pk = 3, uuid = ''u3'', label = ''B'', description = ''d'',
                 process_label = ''wc'', process_state = RUNNING, exit_status = None,
                 paused = False, ctime = 0, mtime = 0\<rparr>"

definition world_of :: "ProcessNode list \<Rightarrow> nat list \<Rightarrow> World" where
  "world_of ps ms = \<lparr>store = \<lparr>nodes = ps, groups = [(''g'', ms)]\<rparr>, clock = 0, trace = []\<rparr>"

definition supervisor_of :: "SubmissionSupervisorSettings \<Rightarrow> SubmissionSupervisor" where
  "supervisor_of s = \<lparr>settings = s, quotaq = None, submitted_top_processes = []\<rparr>"

definition no_space_left :: QuotaQuerier where
  "no_space_left = \<lparr>min_free_space = ''10G'', is_min_free_space_left = (\<lambda>t. False)\<rparr>"
text \<open>
  The events a call of \<^verbatim>\<open>blocking_submit\<close> is shown to be confined to: everything but a
  deletion of nodes, the announcement of a real (not simulated) deletion, and the
  events of the classifier.
\<close>

fun supervisor_event :: "Event \<Rightarrow> bool" where
  "supervisor_event (Ev_delete_nodes k) = False"
| "supervisor_event (Info_stalling k simulated) = simulated"
| "supervisor_event Info_found_temporary_groups = False"
| "supervisor_event (Info_deleted_group g) = False"
| "supervisor_event (Ev_group_created g) = False"
| "supervisor_event (Ev_group_deleted g) = False"
| "supervisor_event e = True"

text \<open>Lines 764 to 791 of the waiting line: the stalling cleanup, when it is switched on.\<close>

definition cleanup :: "Engine \<Rightarrow> SubmissionSupervisorSettings \<Rightarrow> ProcessNode list \<Rightarrow> World \<Rightarrow> ProcessNode list \<times> World" where
  "cleanup eng s tracked w =
     (if delete_if_stalling s \<or> (\<not> delete_if_stalling s \<and> delete_if_stalling_dry_run s)
      then remove_stalling eng s tracked w else (tracked, w))"

text \<open>
  A supervisor that tracks the running node B with the simulation of the stalling
  cleanup switched on, in a world whose clock is far past B's last modification.
\<close>

definition late_world :: World where
  "late_world = \<lparr>store = \<lparr>nodes = [node_B_running], groups = [(''g'', [])]\<rparr>,
                  clock = 100000, trace = []\<rparr>"

definition simulating_supervisor :: SubmissionSupervisor where
  "simulating_supervisor =
     \<lparr>settings = default_settings\<lparr>dry_run := True, resubmit_failed := False,
                                   delete_if_stalling_dry_run := True\<rparr>,
      quotaq = None, submitted_top_processes = [node_B_running]\<rparr>"

text \<open>
  A supervisor constructed with the destructive stalling deletion requested, and the
  settings of the time-out example: a ceiling of 0 top processes, one minute between
  polls, one minute of waiting at most, in a dry run, without retry.
\<close>

definition destructive_supervisor :: SubmissionSupervisor where
  "destructive_supervisor =
     \<lparr>settings = default_settings\<lparr>dry_run := True, resubmit_failed := False,
                                   delete_if_stalling := True\<rparr>,
      quotaq = None, submitted_top_processes = [node_B_running]\<rparr>"

definition timeout_test_supervisor :: SubmissionSupervisor where
  "timeout_test_supervisor =
     supervisor_of (default_settings\<lparr>dry_run := True, max_top_processes_running := 0,
        wait_for_submit := 1, max_wait_for_submit := 1, resubmit_failed := False\<rparr>)"

text \<open>
  The number of polls of a waiting line that always finds the queue too full: the
  loop condition \<^verbatim>\<open>waited_for_submit <= max_wait_for_submit\<close> holds for
  \<open>waited_for_submit = 0, wait_for_submit, 2 * wait_for_submit, ...\<close>, the bound
  included.
\<close>

definition remaining_polls :: "SubmissionSupervisorSettings \<Rightarrow> int \<Rightarrow> nat" where
  "remaining_polls s waited =
     (if max_wait_for_submit s < waited then 0
      else nat ((max_wait_for_submit s - waited) div wait_for_submit s) + 1)"

definition polls :: "SubmissionSupervisorSettings \<Rightarrow> nat" where
  "polls s = remaining_polls s 0"

text \<open>
  The events of one poll that finds the queue too full: the simulated stalling notice,
  the counts and the sleep.
\<close>

fun waiting_event :: "Event \<Rightarrow> bool" where
  "waiting_event (Info_stalling k simulated) = simulated"
| "waiting_event (Ev_count_running g) = True"
| "waiting_event (Ev_sleep n) = True"
| "waiting_event e = False"

text \<open>
  The node that the example engine creates for the builder labelled A in an empty store.
\<close>

definition submitted_A :: ProcessNode where
  "submitted_A = \<lparr>pk = 1, uuid = ''A'', label = ''A'', description = ''d'',
                   process_label = ''wc'', process_state = CREATED, exit_status = None,
                   paused = False, ctime = 0, mtime = 0\<rparr>"
subsection \<open>Auxiliary definitions for the classifier\<close>

text \<open>
  The processes a bucket holds, and all classified processes, bucket after bucket.
\<close>

fun bucket_processes :: "Bucket \<Rightarrow> ProcessNode list" where
  "bucket_processes (Processes l) = l"
| "bucket_processes (ByExitStatus d) = concat (map snd d)"

definition classified_processes :: "ProcessClassifier \<Rightarrow> ProcessNode list" where
  "classified_processes clf = concat (map (\<lambda>(k, b). bucket_processes b) (classified_by_state clf))"

text \<open>
  The members of a set of pks that are in one state, and the dictionary that
  \<^verbatim>\<open>classify_by_state\<close> builds from them.
\<close>

definition members_in_state :: "nat set \<Rightarrow> string \<Rightarrow> ProcessNode list \<Rightarrow> ProcessNode list" where
  "members_in_state S state ps = filter (\<lambda>p. pk p \<in> S \<and> ps_value (process_state p) = state) ps"

definition classification :: "nat set \<Rightarrow> ProcessNode list \<Rightarrow> (string \<times> Bucket) list" where
  "classification S ps =
     [(''created'', Processes (members_in_state S ''created'' ps)),
      (''waiting'', Processes (members_in_state S ''waiting'' ps)),
      (''running'', Processes (members_in_state S ''running'' ps)),
      (''excepted'', Processes (members_in_state S ''excepted'' ps)),
      (''killed'', Processes (members_in_state S ''killed'' ps)),
      (''finished'', ByExitStatus (by_exit_status (members_in_state S ''finished'' ps) []))]"

text \<open>
  Example data: one name for the temporary group, a fresh classifier, the classification
  of the finished node A alone, and the trace of a run that classifies.
\<close>

definition example_name :: "string \<times> string" where
  "example_name = (''2021-03-04_05-06-07'', ''k3Jq9ZpLw2XcVb7N'')"

definition classifier_of :: "ProcessNode list option \<Rightarrow> ProcessClassifier" where
  "classifier_of processes = \<lparr>unclassified_processes = processes, classified_by_state = []\<rparr>"

definition classified_A :: "(string \<times> Bucket) list" where
  "classified_A =
     [(''created'', Processes []), (''waiting'', Processes []), (''running'', Processes []),
      (''excepted'', Processes []), (''killed'', Processes []),
      (''finished'', ByExitStatus [(Some 0, [node_A_ok])])]"

definition classification_trace :: "nat list \<Rightarrow> Event list" where
  "classification_trace ks =
     [Ev_group_created (tmp_group_label example_name),
      Ev_add_nodes (tmp_group_label example_name) ks] @
     replicate 6 (Ev_query (tmp_group_label example_name)) @
     [Ev_group_deleted (tmp_group_label example_name)]"
section \<open>Properties of the submission supervisor\<close>

lemma emit_simps [simp]:
  "store (emit e w) = store w" "clock (emit e w) = clock w" "trace (emit e w) = trace w @ [e]"
  by (simp_all add: emit_def)

lemma query_processes_cong_world:
  "store w' = store w \<Longrightarrow> clock w' = clock w \<Longrightarrow>
   query_processes eng w' a b c d e f g h = query_processes eng w a b c d e f g h"
  by (cases g) (simp_all add: query_processes_def)

lemma query_groups_eq:
  "query_groups eng l pl gs w =
     (concat (map (\<lambda>g. query_processes eng w (Some l) (Some pl) None None False False (Some g) None) gs),
      w\<lparr>trace := trace w @ map Ev_query gs\<rparr>)"
proof (induction gs arbitrary: w)
  case Nil
  show ?case by simp
next
  case (Cons g gs)
  have q: "\<And>g'. query_processes eng (emit (Ev_query g) w) (Some l) (Some pl) None None False False (Some g') None
            = query_processes eng w (Some l) (Some pl) None None False False (Some g') None"
    by (rule query_processes_cong_world) simp_all
  show ?case
    by (simp add: Cons.IH q Let_def)
qed

lemma existing_matches_cong_world:
  "store w' = store w \<Longrightarrow> clock w' = clock w \<Longrightarrow>
   existing_matches eng b gs w' = existing_matches eng b gs w"
  by (simp add: existing_matches_def query_groups_eq query_processes_cong_world [of w' w])

lemma guard_cases:
  obtains (off) "\<not> delete_if_stalling (settings sv)" "tmp_guard_against_delete_if_stalling sv w = (sv, w)"
  | (on) "delete_if_stalling (settings sv)"
      "tmp_guard_against_delete_if_stalling sv w =
        (sv\<lparr>settings := (settings sv)\<lparr>delete_if_stalling := False, delete_if_stalling_dry_run := True\<rparr>\<rparr>,
         emit Warn_delete_if_stalling_unsupported w)"
  by (cases "delete_if_stalling (settings sv)") (simp_all add: tmp_guard_against_delete_if_stalling_def)

lemma guard_props:
  assumes "tmp_guard_against_delete_if_stalling sv w = (sv1, w1)"
  shows "store w1 = store w" "clock w1 = clock w"
    "submitted_top_processes sv1 = submitted_top_processes sv" "quotaq sv1 = quotaq sv"
    "\<not> delete_if_stalling (settings sv1)"
    "trace w1 = trace w @ (if delete_if_stalling (settings sv) then [Warn_delete_if_stalling_unsupported] else [])"
    "settings sv1 = (if delete_if_stalling (settings sv)
        then (settings sv)\<lparr>delete_if_stalling := False, delete_if_stalling_dry_run := True\<rparr>
        else settings sv)"
  using assms by (auto simp: tmp_guard_against_delete_if_stalling_def split: if_splits)

text \<open>
  Claim C10. A call of \<^verbatim>\<open>blocking_submit\<close> that leaves \<^verbatim>\<open>groups\<close> at \<^verbatim>\<open>None\<close> fails with a
  TypeError when the loop over the groups starts: nothing has been queried, loaded,
  counted or submitted by then, the store, the clock and the tracked list are as before,
  and the only message there can be is the guard's warning. The builder carries a label,
  as the docstring requires (\<^verbatim>\<open>metadata.label must be set!\<close>); the check of the label
  comes first in the code. The fuel is arbitrary: the waiting line is not entered.
\<close>

theorem blocking_submit_without_groups:
  assumes "metadata_label builder \<noteq> []"
  shows "\<exists>sv' w'. blocking_submit fuel eng sv builder NoGroups w = Some (Inl TypeError, sv', w')
           \<and> store w' = store w \<and> clock w' = clock w
           \<and> submitted_top_processes sv' = submitted_top_processes sv
           \<and> (trace w' = trace w \<or> trace w' = trace w @ [Warn_delete_if_stalling_unsupported])"
proof -
  obtain sv1 w1 where g: "tmp_guard_against_delete_if_stalling sv w = (sv1, w1)"
    by (cases "tmp_guard_against_delete_if_stalling sv w")
  have "blocking_submit fuel eng sv builder NoGroups w = Some (Inl TypeError, sv1, w1)"
    using assms g by (simp add: blocking_submit_def)
  with guard_props [OF g] show ?thesis by auto
qed




text \<open>
  \<^verbatim>\<open>blocking_submit\<close> once the label and the groups have passed: the four cases over the
  matches, in the world after the guard and the queries.
\<close>

lemma blocking_submit_unfold:
  assumes lbl: "metadata_label builder \<noteq> []"
      and gs: "groups_list groups_arg = Some gs"
      and g: "tmp_guard_against_delete_if_stalling sv w = (sv1, w1)"
      and ms_def: "ms = existing_matches eng builder gs w"
      and w2_def: "w2 = w1\<lparr>trace := trace w1 @ map Ev_query gs @
                    (if 1 < length ms then [Info_found_multiple (length ms)] else [])\<rparr>"
  shows "blocking_submit fuel eng sv builder groups_arg w =
     (case filter is_finished_ok ms of
        wc # _ \<Rightarrow>
          (case load_node (pk wc) w2 of
             (Inl e, w3) \<Rightarrow> Some (Inl e, sv1, w3)
           | (Inr next_process, w3) \<Rightarrow>
               Some (Inr (Some next_process, Some True), sv1, emit Info_loaded_finished_ok w3))
      | [] \<Rightarrow>
          (if filter is_terminated ms \<noteq> [] \<and> \<not> resubmit_failed (settings sv1) then
             (case load_node (pk (hd (filter is_terminated ms))) w2 of
                (Inl e, w3) \<Rightarrow> Some (Inl e, sv1, w3)
              | (Inr next_process, w3) \<Rightarrow>
                  Some (Inr (Some next_process, Some True), sv1, emit Info_loaded_terminated w3))
           else if filter (\<lambda>proc. \<not> is_terminated proc) ms \<noteq> [] then
             (case load_node (pk (hd (filter (\<lambda>proc. \<not> is_terminated proc) ms))) w2 of
                (Inl e, w3) \<Rightarrow> Some (Inl e, sv1, w3)
              | (Inr next_process, w3) \<Rightarrow>
                  Some (Inr (Some next_process, Some False),
                        sv1\<lparr>submitted_top_processes := submitted_top_processes sv1 @ [next_process]\<rparr>,
                        emit Info_not_terminated w3))
           else submit_branch fuel eng sv1 builder (process_class_name builder) gs
                  (filter is_terminated ms) w2))"
proof -
  have ms: "remove_duplicates [] (fst (query_groups eng (metadata_label builder) (process_class_name builder) gs w1)) = ms"
    unfolding ms_def existing_matches_def [symmetric]
    by (rule existing_matches_cong_world) (simp_all add: guard_props [OF g])
  have snd: "snd (query_groups eng (metadata_label builder) (process_class_name builder) gs w1)
      = w1\<lparr>trace := trace w1 @ map Ev_query gs\<rparr>"
    by (simp add: query_groups_eq)
  obtain found wq where q: "query_groups eng (metadata_label builder) (process_class_name builder) gs w1 = (found, wq)"
    by (cases "query_groups eng (metadata_label builder) (process_class_name builder) gs w1")
  from ms snd q have f: "remove_duplicates [] found = ms" and wq: "wq = w1\<lparr>trace := trace w1 @ map Ev_query gs\<rparr>"
    by simp_all
  have w2a: "Suc 0 < length ms \<Longrightarrow> emit (Info_found_multiple (length ms)) wq = w2"
    by (simp add: w2_def wq emit_def)
  have w2b: "\<not> Suc 0 < length ms \<Longrightarrow> wq = w2"
    by (simp add: w2_def wq emit_def)
  show ?thesis
    unfolding blocking_submit_def g using lbl
    by (cases "Suc 0 < length ms") (simp_all add: gs q f w2a w2b Let_def cong: list.case_cong if_cong)
qed



lemma stage_builder_props:
  assumes "stage_builder eng s builder ts w = (r, w')"
  shows "store w' = store w" "clock w' = clock w"
    "\<exists>evs. trace w' = trace w @ evs \<and> \<not> list_ex admission_event evs"
  using assms
  by (auto simp: stage_builder_def Let_def split: if_splits list.splits)

lemma stage_builder_ok:
  assumes "\<not> (resubmit_failed s \<and> resubmit_failed_as_restart s \<and> ts = [])"
  shows "\<exists>b w'. stage_builder eng s builder ts w = (Inr b, w')"
  using assms by (auto simp: stage_builder_def Let_def split: list.splits)

text \<open>
  The quota check, once it is reached. A call that gets to line 757 (no match is finished
  ok, a terminated match exists only with \<^verbatim>\<open>resubmit_failed\<close> set, no match is still
  queued, and staging the builder has not raised) with a quota querier that reports too
  little free space raises the IOError at once: the store, the clock and the tracked list
  are unchanged and no count of running processes, sleep or submission takes place, for
  every fuel, zero included.
\<close>

theorem blocking_submit_quota_abort:
  assumes lbl: "metadata_label builder \<noteq> []"
      and gs: "groups_list groups_arg = Some gs"
      and none_ok: "filter is_finished_ok (existing_matches eng builder gs w) = []"
      and retry: "filter is_terminated (existing_matches eng builder gs w) = [] \<or>
                  resubmit_failed (settings sv)"
      and none_queued: "filter (\<lambda>proc. \<not> is_terminated proc) (existing_matches eng builder gs w) = []"
      and staged: "\<not> (resubmit_failed (settings sv) \<and> resubmit_failed_as_restart (settings sv) \<and>
                       filter is_terminated (existing_matches eng builder gs w) = [])"
      and quota: "quotaq sv = Some q"
      and no_space: "\<not> is_min_free_space_left q (clock w)"
  shows "\<exists>sv' w' evs.
           blocking_submit fuel eng sv builder groups_arg w = Some (Inl IOError, sv', w')
           \<and> store w' = store w \<and> clock w' = clock w
           \<and> submitted_top_processes sv' = submitted_top_processes sv
           \<and> trace w' = trace w @ evs \<and> \<not> list_ex admission_event evs"
proof -
  obtain sv1 w1 where g: "tmp_guard_against_delete_if_stalling sv w = (sv1, w1)"
    by (cases "tmp_guard_against_delete_if_stalling sv w")
  define ms where "ms = existing_matches eng builder gs w"
  define w2 where "w2 = w1\<lparr>trace := trace w1 @ map Ev_query gs @
                    (if 1 < length ms then [Info_found_multiple (length ms)] else [])\<rparr>"
  have flags: "resubmit_failed (settings sv1) = resubmit_failed (settings sv)"
    "resubmit_failed_as_restart (settings sv1) = resubmit_failed_as_restart (settings sv)"
    by (simp_all add: guard_props(7) [OF g])
  have branch: "blocking_submit fuel eng sv builder groups_arg w =
      submit_branch fuel eng sv1 builder (process_class_name builder) gs (filter is_terminated ms) w2"
    using none_ok retry none_queued
    by (auto simp: blocking_submit_unfold [OF lbl gs g ms_def w2_def] ms_def [symmetric] flags)
  obtain b w3 where st: "stage_builder eng (settings sv1) builder (filter is_terminated ms) w2 = (Inr b, w3)"
    using stage_builder_ok [of "settings sv1" "filter is_terminated ms" eng builder w2] staged
    by (auto simp: flags ms_def)
  note sp = stage_builder_props [OF st]
  have clk: "clock w3 = clock w"
    by (simp add: sp w2_def guard_props [OF g])
  have res: "blocking_submit fuel eng sv builder groups_arg w =
      Some (Inl IOError, sv1, emit Ev_quota_check w3)"
    using no_space quota
    by (simp add: branch submit_branch_def st guard_props(4) [OF g] clk)
  obtain evs where evs: "trace w3 = trace w2 @ evs" "\<not> list_ex admission_event evs"
    using sp(3) by blast
  have tr: "trace (emit Ev_quota_check w3) =
      trace w @ ((if delete_if_stalling (settings sv) then [Warn_delete_if_stalling_unsupported] else [])
        @ map Ev_query gs @ (if 1 < length ms then [Info_found_multiple (length ms)] else [])
        @ evs @ [Ev_quota_check])"
    by (simp add: evs w2_def guard_props [OF g])
  have "\<not> list_ex admission_event
       ((if delete_if_stalling (settings sv) then [Warn_delete_if_stalling_unsupported] else [])
        @ map Ev_query gs @ (if 1 < length ms then [Info_found_multiple (length ms)] else [])
        @ evs @ [Ev_quota_check])"
    using evs(2) by (auto simp: list_ex_iff)
  with res tr show ?thesis
    using guard_props(1-3) [OF g] sp(1) clk by (auto simp: w2_def)
qed

text \<open>The three theorems above at concrete calls.\<close>

theorem blocking_submit_without_groups_witness:
  "metadata_label builder_A \<noteq> [] \<and>
   (\<exists>sv' w'. blocking_submit 0 static_engine (supervisor_of default_settings) builder_A NoGroups
                (world_of [] []) = Some (Inl TypeError, sv', w')
           \<and> store w' = store (world_of [] []) \<and> clock w' = clock (world_of [] [])
           \<and> submitted_top_processes sv' = submitted_top_processes (supervisor_of default_settings)
           \<and> (trace w' = trace (world_of [] []) \<or>
               trace w' = trace (world_of [] []) @ [Warn_delete_if_stalling_unsupported]))"
  using blocking_submit_without_groups [where builder = builder_A and fuel = 0
      and eng = static_engine and sv = "supervisor_of default_settings" and w = "world_of [] []"]
  by (simp add: builder_A_def)



lemma matches_world_empty:
  "existing_matches static_engine builder_A [''g''] (world_of [] []) = []"
  by (simp add: existing_matches_def query_processes_def world_of_def emit_def)

theorem blocking_submit_quota_abort_witness:
  "metadata_label builder_A \<noteq> [] \<and> groups_list (OneGroup ''g'') = Some [''g''] \<and>
   existing_matches static_engine builder_A [''g''] (world_of [] []) = [] \<and>
   resubmit_failed (settings ((supervisor_of (default_settings\<lparr>resubmit_failed_as_restart := False\<rparr>))
                                \<lparr>quotaq := Some no_space_left\<rparr>)) \<and>
   \<not> resubmit_failed_as_restart
        (settings ((supervisor_of (default_settings\<lparr>resubmit_failed_as_restart := False\<rparr>))
                     \<lparr>quotaq := Some no_space_left\<rparr>)) \<and>
   \<not> is_min_free_space_left no_space_left (clock (world_of [] [])) \<and>
   (\<exists>sv' w' evs.
      blocking_submit 0 static_engine
        ((supervisor_of (default_settings\<lparr>resubmit_failed_as_restart := False\<rparr>))
           \<lparr>quotaq := Some no_space_left\<rparr>)
        builder_A (OneGroup ''g'') (world_of [] []) = Some (Inl IOError, sv', w')
      \<and> store w' = store (world_of [] []) \<and> clock w' = clock (world_of [] [])
      \<and> submitted_top_processes sv' = []
      \<and> trace w' = trace (world_of [] []) @ evs \<and> \<not> list_ex admission_event evs)"
proof -
  let ?sv = "(supervisor_of (default_settings\<lparr>resubmit_failed_as_restart := False\<rparr>))
               \<lparr>quotaq := Some no_space_left\<rparr>"
  have h1: "metadata_label builder_A \<noteq> []" by (simp add: builder_A_def)
  have h2: "groups_list (OneGroup ''g'') = Some [''g'']" by simp
  note m = matches_world_empty
  have f: "resubmit_failed (settings ?sv)" "\<not> resubmit_failed_as_restart (settings ?sv)"
    "submitted_top_processes ?sv = []"
    by (simp_all add: supervisor_of_def default_settings_def)
  have q: "quotaq ?sv = Some no_space_left" by simp
  have n: "\<not> is_min_free_space_left no_space_left (clock (world_of [] []))"
    by (simp add: no_space_left_def)
  show ?thesis
    using blocking_submit_quota_abort [where builder = builder_A and groups_arg = "OneGroup ''g''"
        and gs = "[''g'']" and eng = static_engine and w = "world_of [] []" and sv = ?sv
        and q = no_space_left and fuel = 0] h1 h2 m f q n
    by simp
qed
subsection \<open>The waiting line\<close>

lemma num_running_snd: "snd (num_running eng pl g w) = emit (Ev_count_running g) w"
  by (simp add: num_running_def)

lemma queue_too_full_props:
  assumes "queue_too_full eng s pl w = (full, w')"
  shows "store w' = store w" "clock w' = clock w"
    "trace w' = trace w @ [Ev_count_running 0] \<or>
     trace w' = trace w @ [Ev_count_running 0, Ev_count_running 1]"
  using assms
  by (auto simp: queue_too_full_def num_running_def Let_def split: if_splits)

lemma sleep_props:
  assumes "sleep eng n w = Inr w'"
  shows "trace w' = trace w @ [Ev_sleep n]" "clock w' = clock w + n"
    "store w' = evolve eng (clock w) (nat n) (store w)"
  using assms by (auto simp: sleep_def split: if_splits)

lemma stalling_simulated:
  assumes "stalling eng s wc w = (gone, w')" and "delete_if_stalling_dry_run s"
  shows "store w' = store w" "clock w' = clock w"
    "trace w' = trace w @ (if gone then [Info_stalling (pk wc) True] else [])"
  using assms by (auto simp: stalling_def Let_def split: if_splits)

lemma remove_stalling_simulated:
  assumes "remove_stalling eng s tracked w = (tracked', w')" and "delete_if_stalling_dry_run s"
  shows "store w' = store w \<and> clock w' = clock w \<and>
     (\<exists>evs. trace w' = trace w @ evs \<and> list_all supervisor_event evs \<and>
        (\<forall>wc\<in>set tracked. wc \<in> set tracked' \<or> Info_stalling (pk wc) True \<in> set evs))"
  using assms(1)
proof (induction tracked arbitrary: w tracked' w')
  case Nil
  then show ?case by simp
next
  case (Cons wc wcs)
  obtain gone w1 where st: "stalling eng s wc w = (gone, w1)"
    by (cases "stalling eng s wc w")
  obtain rest w2 where rs: "remove_stalling eng s wcs w1 = (rest, w2)"
    by (cases "remove_stalling eng s wcs w1")
  from Cons.prems st rs have res: "tracked' = (if gone then rest else wc # rest)" "w' = w2"
    by (auto simp: Let_def)
  note sp = stalling_simulated [OF st assms(2)]
  from Cons.IH [OF rs] obtain evs where
    ih: "store w2 = store w1" "clock w2 = clock w1" "trace w2 = trace w1 @ evs"
      "list_all supervisor_event evs"
      "\<forall>wc\<in>set wcs. wc \<in> set rest \<or> Info_stalling (pk wc) True \<in> set evs"
    by blast
  let ?evs = "(if gone then [Info_stalling (pk wc) True] else []) @ evs"
  have "trace w' = trace w @ ?evs" by (simp add: res ih sp)
  moreover have "list_all supervisor_event ?evs" using ih(4) by simp
  moreover have "\<forall>x\<in>set (wc # wcs). x \<in> set tracked' \<or> Info_stalling (pk x) True \<in> set ?evs"
    using ih(5) by (auto simp: res)
  moreover have "store w' = store w" "clock w' = clock w" by (simp_all add: res ih sp)
  ultimately show ?case by blast
qed

lemma cleanup_props:
  assumes "cleanup eng s tracked w = (tracked', w')" and "\<not> delete_if_stalling s"
  shows "store w' = store w \<and> clock w' = clock w \<and>
     (\<exists>evs. trace w' = trace w @ evs \<and> list_all supervisor_event evs \<and>
        (\<forall>wc\<in>set tracked. wc \<in> set tracked' \<or> Info_stalling (pk wc) True \<in> set evs)) \<and>
     (\<not> delete_if_stalling_dry_run s \<longrightarrow> tracked' = tracked \<and> w' = w)"
proof (cases "delete_if_stalling_dry_run s")
  case True
  with assms have "remove_stalling eng s tracked w = (tracked', w')"
    by (simp add: cleanup_def)
  from remove_stalling_simulated [OF this True] True show ?thesis by simp
next
  case False
  with assms have "tracked' = tracked" "w' = w" by (simp_all add: cleanup_def)
  then show ?thesis by simp
qed

lemma add_to_groups_props:
  assumes "add_to_groups gs p w = (r, w')"
  shows "clock w' = clock w \<and> (\<exists>evs. trace w' = trace w @ evs \<and> list_all supervisor_event evs
            \<and> (\<forall>k b. Info_stalling k b \<notin> set evs))"
  using assms
proof (induction gs arbitrary: w)
  case Nil
  then show ?case by simp
next
  case (Cons g gs)
  show ?case
  proof (cases "add_nodes g [p] w")
    case (Inl e)
    with Cons.prems show ?thesis by simp
  next
    case (Inr w1)
    then have w1: "clock w1 = clock w" "trace w1 = trace w @ [Ev_add_nodes g [pk p]]"
      by (auto simp: add_nodes_def split: if_splits option.splits)
    from Cons.prems Inr have "add_to_groups gs p w1 = (r, w')" by simp
    from Cons.IH [OF this] obtain evs where "clock w' = clock w1" "trace w' = trace w1 @ evs"
      "list_all supervisor_event evs" "\<forall>k b. Info_stalling k b \<notin> set evs" by blast
    then have "clock w' = clock w \<and> trace w' = trace w @ (Ev_add_nodes g [pk p] # evs) \<and>
       list_all supervisor_event (Ev_add_nodes g [pk p] # evs) \<and>
       (\<forall>k b. Info_stalling k b \<notin> set (Ev_add_nodes g [pk p] # evs))"
      by (simp add: w1)
    then show ?thesis by blast
  qed
qed

lemma try_submit_props:
  assumes "try_submit eng s b pl gs waited tracked w = (r, tracked', w')"
  shows "(\<exists>evs. trace w' = trace w @ evs \<and> list_all supervisor_event evs
            \<and> (\<forall>k b. Info_stalling k b \<notin> set evs)) \<and>
         (\<exists>xs. tracked' = tracked @ xs)"
proof -
  define w3 where "w3 = emit (Info_try_submit waited)
      (emit (Ev_count_running 1) (emit (Ev_count_running 0) w))"
  have w3: "trace w3 = trace w @ [Ev_count_running 0, Ev_count_running 1, Info_try_submit waited]"
    by (simp add: w3_def)
  show ?thesis
  proof (cases "dry_run s")
    case True
    with assms have "tracked' = tracked" "w' = emit Info_dry_run_would_submit w3"
      by (auto simp: try_submit_def num_running_def Let_def w3_def split: prod.splits)
    then have "trace w' = trace w @ [Ev_count_running 0, Ev_count_running 1, Info_try_submit waited,
        Info_dry_run_would_submit]" by (simp add: w3)
    then show ?thesis using \<open>tracked' = tracked\<close>
      by (intro conjI exI [where x = "[Ev_count_running 0, Ev_count_running 1, Info_try_submit waited,
        Info_dry_run_would_submit]"] exI [where x = "[]"]) simp_all
  next
    case False
    obtain next_process st' where sb: "submit eng b (clock w) (store w) = (next_process, st')"
      by (cases "submit eng b (clock w) (store w)")
    define w4 where "w4 = emit (Ev_submit b) (emit (Info_try_submit waited)
      (emit (Ev_count_running (Suc 0)) (emit (Ev_count_running 0) w))\<lparr>store := st'\<rparr>)"
    obtain e5 w5 where ag: "add_to_groups gs next_process w4 = (e5, w5)"
      by (cases "add_to_groups gs next_process w4")
    from add_to_groups_props [OF ag] obtain evs where
      a: "trace w5 = trace w4 @ evs" "list_all supervisor_event evs" "\<forall>k b. Info_stalling k b \<notin> set evs"
      by blast
    have w4: "trace w4 = trace w @ [Ev_count_running 0, Ev_count_running 1, Info_try_submit waited, Ev_submit b]"
      by (simp add: w4_def)
    have unf: "try_submit eng s b pl gs waited tracked w =
       (case e5 of Some e \<Rightarrow> (Inl e, tracked @ [next_process], w5)
        | None \<Rightarrow>
          (case sleep eng (wait_after_submit s * seconds_per_min s) (emit (Info_submitted (pk next_process)) w5) of
             Inl e \<Rightarrow> (Inl e, tracked @ [next_process], emit (Info_submitted (pk next_process)) w5)
           | Inr w7 \<Rightarrow> (Inr (Some next_process, Some False), tracked @ [next_process], w7)))"
      using False sb ag
      by (simp add: try_submit_def num_running_def Let_def w4_def [symmetric]
          split: option.splits)
    have tr: "tracked' = tracked @ [next_process]"
      using assms unf by (auto split: option.splits sum.splits)
    have "\<exists>evs'. trace w' = trace w5 @ evs' \<and> list_all supervisor_event evs' \<and>
        (\<forall>k b. Info_stalling k b \<notin> set evs')"
    proof (cases e5)
      case (Some e)
      with assms unf have "w' = w5" by simp
      then show ?thesis by simp
    next
      case None
      show ?thesis
      proof (cases "sleep eng (wait_after_submit s * seconds_per_min s) (emit (Info_submitted (pk next_process)) w5)")
        case (Inl e)
        with assms unf None have "w' = emit (Info_submitted (pk next_process)) w5" by simp
        then have "trace w' = trace w5 @ [Info_submitted (pk next_process)]" by simp
        then show ?thesis
          by (intro exI [where x = "[Info_submitted (pk next_process)]"]) simp
      next
        case (Inr w7)
        with assms unf None have "w' = w7" by simp
        with sleep_props(1) [OF Inr] have "trace w' = trace w5 @ [Info_submitted (pk next_process),
            Ev_sleep (wait_after_submit s * seconds_per_min s)]" by simp
        then show ?thesis
          by (intro exI [where x = "[Info_submitted (pk next_process),
            Ev_sleep (wait_after_submit s * seconds_per_min s)]"]) simp
      qed
    qed
    then obtain evs' where b: "trace w' = trace w5 @ evs'" "list_all supervisor_event evs'"
        "\<forall>k b. Info_stalling k b \<notin> set evs'" by blast
    let ?all = "[Ev_count_running 0, Ev_count_running 1, Info_try_submit waited, Ev_submit b] @ evs @ evs'"
    have "trace w' = trace w @ ?all" by (simp add: b a w4)
    moreover have "list_all supervisor_event ?all" using a(2) b(2) by simp
    moreover have "\<forall>k b. Info_stalling k b \<notin> set ?all" using a(3) b(3) by simp
    ultimately show ?thesis using tr by blast
  qed
qed

lemma submit_loop_Suc:
  "submit_loop (Suc fuel) eng s b pl gs waited tracked w =
     (if waited \<le> max_wait_for_submit s then
        (case cleanup eng s tracked w of
           (tracked1, w1) \<Rightarrow>
             (case queue_too_full eng s pl w1 of
                (too_full, w2) \<Rightarrow>
                  if too_full then
                    (case sleep eng (wait_for_submit s * seconds_per_min s) w2 of
                       Inl e \<Rightarrow> Some (Inl e, tracked1, w2)
                     | Inr w3 \<Rightarrow> submit_loop fuel eng s b pl gs (waited + wait_for_submit s) tracked1 w3)
                  else Some (try_submit eng s b pl gs waited tracked1 w2)))
      else Some (Inr (None, None), tracked, emit (Warn_timed_out waited) w))"
  by (simp add: cleanup_def Let_def split: prod.splits)

declare submit_loop.simps [simp del]

lemma submit_loop_0 [simp]: "submit_loop 0 eng s b pl gs waited tracked w = None"
  by (simp add: submit_loop.simps)

lemma submit_loop_effects:
  assumes "\<not> delete_if_stalling s"
      and "submit_loop fuel eng s b pl gs waited tracked w = Some (r, tracked', w')"
  shows "\<exists>evs. trace w' = trace w @ evs \<and> list_all supervisor_event evs \<and>
           (\<forall>wc\<in>set tracked. wc \<in> set tracked' \<or> Info_stalling (pk wc) True \<in> set evs) \<and>
           (\<not> delete_if_stalling_dry_run s \<longrightarrow> (\<exists>xs. tracked' = tracked @ xs))"
  using assms(2)
proof (induction fuel arbitrary: waited tracked w)
  case 0
  then show ?case by simp
next
  case (Suc fuel)
  show ?case
  proof (cases "waited \<le> max_wait_for_submit s")
    case False
    with Suc.prems have "tracked' = tracked" "w' = emit (Warn_timed_out waited) w"
      by (simp_all add: submit_loop_Suc)
    then show ?thesis
      by (intro exI [where x = "[Warn_timed_out waited]"]) simp
  next
    case True
    obtain tracked1 w1 where c: "cleanup eng s tracked w = (tracked1, w1)"
      by (cases "cleanup eng s tracked w")
    obtain too_full w2 where q: "queue_too_full eng s pl w1 = (too_full, w2)"
      by (cases "queue_too_full eng s pl w1")
    from cleanup_props [OF c assms(1)] obtain evs1 where
      c1: "trace w1 = trace w @ evs1" "list_all supervisor_event evs1"
        "\<forall>wc\<in>set tracked. wc \<in> set tracked1 \<or> Info_stalling (pk wc) True \<in> set evs1"
        "\<not> delete_if_stalling_dry_run s \<longrightarrow> tracked1 = tracked"
      by blast
    from queue_too_full_props(3) [OF q] obtain evs2 where
      q2: "trace w2 = trace w1 @ evs2" "list_all supervisor_event evs2"
      by (elim disjE) (simp_all)
    have "\<exists>evs3. trace w' = trace w2 @ evs3 \<and> list_all supervisor_event evs3 \<and>
           (\<forall>wc\<in>set tracked1. wc \<in> set tracked' \<or> Info_stalling (pk wc) True \<in> set evs3) \<and>
           (\<not> delete_if_stalling_dry_run s \<longrightarrow> (\<exists>xs. tracked' = tracked1 @ xs))"
    proof (cases too_full)
      case False
      with Suc.prems True c q have "try_submit eng s b pl gs waited tracked1 w2 = (r, tracked', w')"
        by (simp add: submit_loop_Suc)
      from try_submit_props [OF this] show ?thesis by auto
    next
      case full: True
      show ?thesis
      proof (cases "sleep eng (wait_for_submit s * seconds_per_min s) w2")
        case (Inl e)
        with Suc.prems True c q full have "tracked' = tracked1" "w' = w2"
          by (simp_all add: submit_loop_Suc)
        then show ?thesis by simp
      next
        case (Inr w3)
        with Suc.prems True c q full have
          "submit_loop fuel eng s b pl gs (waited + wait_for_submit s) tracked1 w3 = Some (r, tracked', w')"
          by (simp add: submit_loop_Suc)
        from Suc.IH [OF this] obtain evs where
          ih: "trace w' = trace w3 @ evs" "list_all supervisor_event evs"
            "\<forall>wc\<in>set tracked1. wc \<in> set tracked' \<or> Info_stalling (pk wc) True \<in> set evs"
            "\<not> delete_if_stalling_dry_run s \<longrightarrow> (\<exists>xs. tracked' = tracked1 @ xs)"
          by blast
        let ?evs = "Ev_sleep (wait_for_submit s * seconds_per_min s) # evs"
        have "trace w' = trace w2 @ ?evs" by (simp add: ih sleep_props(1) [OF Inr])
        moreover have "list_all supervisor_event ?evs" using ih(2) by simp
        moreover have "\<forall>wc\<in>set tracked1. wc \<in> set tracked' \<or> Info_stalling (pk wc) True \<in> set ?evs"
          using ih(3) by auto
        ultimately show ?thesis using ih(4) by blast
      qed
    qed
    then obtain evs3 where
      r3: "trace w' = trace w2 @ evs3" "list_all supervisor_event evs3"
        "\<forall>wc\<in>set tracked1. wc \<in> set tracked' \<or> Info_stalling (pk wc) True \<in> set evs3"
        "\<not> delete_if_stalling_dry_run s \<longrightarrow> (\<exists>xs. tracked' = tracked1 @ xs)"
      by blast
    let ?evs = "evs1 @ evs2 @ evs3"
    have "trace w' = trace w @ ?evs" by (simp add: r3 q2 c1)
    moreover have "list_all supervisor_event ?evs" using c1(2) q2(2) r3(2) by simp
    moreover have "\<forall>wc\<in>set tracked. wc \<in> set tracked' \<or> Info_stalling (pk wc) True \<in> set ?evs"
      using c1(3) r3(3) by auto
    moreover have "\<not> delete_if_stalling_dry_run s \<longrightarrow> (\<exists>xs. tracked' = tracked @ xs)"
      using c1(4) r3(4) by auto
    ultimately show ?thesis by blast
  qed
qed
subsection \<open>The effects of a call\<close>

lemma load_node_world: "load_node k w = (r, w') \<Longrightarrow> w' = emit (Ev_load_node k) w"
  by (auto simp: load_node_def split: option.splits)

lemma stage_builder_events:
  assumes "stage_builder eng s builder ts w = (r, w')"
  shows "\<exists>evs. trace w' = trace w @ evs \<and> list_all supervisor_event evs \<and>
           (\<forall>k b. Info_stalling k b \<notin> set evs)"
  using assms
  by (auto simp: stage_builder_def Let_def split: if_splits list.splits)

lemma submit_branch_effects:
  assumes nd: "\<not> delete_if_stalling (settings sv)"
      and res: "submit_branch fuel eng sv builder pl gs ts w = Some (r, sv', w')"
  shows "settings sv' = settings sv \<and>
     (\<exists>evs. trace w' = trace w @ evs \<and> list_all supervisor_event evs \<and>
        (\<forall>wc\<in>set (submitted_top_processes sv).
            wc \<in> set (submitted_top_processes sv') \<or> Info_stalling (pk wc) True \<in> set evs) \<and>
        (\<not> delete_if_stalling_dry_run (settings sv) \<longrightarrow>
           (\<exists>xs. submitted_top_processes sv' = submitted_top_processes sv @ xs)))"
proof -
  obtain sb w1 where st: "stage_builder eng (settings sv) builder ts w = (sb, w1)"
    by (cases "stage_builder eng (settings sv) builder ts w")
  from stage_builder_events [OF st] obtain evs1 where
    e1: "trace w1 = trace w @ evs1" "list_all supervisor_event evs1" by blast
  show ?thesis
  proof (cases sb)
    case (Inl e)
    with res st have "sv' = sv" "w' = w1" by (simp_all add: submit_branch_def)
    with e1 show ?thesis by auto
  next
    case (Inr b)
    define wq where "wq = (case quotaq sv of None \<Rightarrow> w1 | Some q \<Rightarrow> emit Ev_quota_check w1)"
    have wq: "trace wq = trace w @ (evs1 @ (case quotaq sv of None \<Rightarrow> [] | Some q \<Rightarrow> [Ev_quota_check]))"
      by (simp add: wq_def e1 split: option.splits)
    have ev: "list_all supervisor_event (evs1 @ (case quotaq sv of None \<Rightarrow> [] | Some q \<Rightarrow> [Ev_quota_check]))"
      using e1(2) by (simp split: option.splits)
    consider (abort) "sv' = sv" "w' = wq"
      | (loop) tracked' where
          "submit_loop fuel eng (settings sv) b pl gs 0 (submitted_top_processes sv) wq
             = Some (r, tracked', w')" "sv' = sv\<lparr>submitted_top_processes := tracked'\<rparr>"
    proof (cases "quotaq sv")
      case None
      with res st Inr obtain tracked' where
        "submit_loop fuel eng (settings sv) b pl gs 0 (submitted_top_processes sv) w1 = Some (r, tracked', w')"
        "sv' = sv\<lparr>submitted_top_processes := tracked'\<rparr>"
        by (auto simp: submit_branch_def)
      then show ?thesis using loop [of tracked'] None by (simp add: wq_def)
    next
      case (Some q)
      show ?thesis
      proof (cases "is_min_free_space_left q (clock w1)")
        case False
        with res st Inr Some have "sv' = sv" "w' = emit Ev_quota_check w1"
          by (simp_all add: submit_branch_def)
        then show ?thesis using abort Some by (simp add: wq_def)
      next
        case True
        with res st Inr Some obtain tracked' where
          "submit_loop fuel eng (settings sv) b pl gs 0 (submitted_top_processes sv)
             (emit Ev_quota_check w1) = Some (r, tracked', w')"
          "sv' = sv\<lparr>submitted_top_processes := tracked'\<rparr>"
          by (auto simp: submit_branch_def)
        then show ?thesis using loop [of tracked'] Some by (simp add: wq_def)
      qed
    qed
    then show ?thesis
    proof cases
      case abort
      with wq ev show ?thesis by auto
    next
      case loop
      from submit_loop_effects [OF nd loop(1)] obtain evs where
        l: "trace w' = trace wq @ evs" "list_all supervisor_event evs"
          "\<forall>wc\<in>set (submitted_top_processes sv). wc \<in> set tracked' \<or> Info_stalling (pk wc) True \<in> set evs"
          "\<not> delete_if_stalling_dry_run (settings sv) \<longrightarrow> (\<exists>xs. tracked' = submitted_top_processes sv @ xs)"
        by blast
      let ?evs = "(evs1 @ (case quotaq sv of None \<Rightarrow> [] | Some q \<Rightarrow> [Ev_quota_check])) @ evs"
      have "trace w' = trace w @ ?evs" by (simp add: l wq)
      moreover have "list_all supervisor_event ?evs" using ev l(2) by simp
      moreover have "\<forall>wc\<in>set (submitted_top_processes sv).
            wc \<in> set (submitted_top_processes sv') \<or> Info_stalling (pk wc) True \<in> set ?evs"
        using l(3) by (auto simp: loop(2))
      moreover have "\<not> delete_if_stalling_dry_run (settings sv) \<longrightarrow>
           (\<exists>xs. submitted_top_processes sv' = submitted_top_processes sv @ xs)"
        using l(4) by (simp add: loop(2))
      moreover have "settings sv' = settings sv" by (simp add: loop(2))
      ultimately show ?thesis by blast
    qed
  qed
qed

lemma blocking_submit_effects:
  assumes res: "blocking_submit fuel eng sv builder groups_arg w = Some (r, sv', w')"
  shows "settings sv' = (if delete_if_stalling (settings sv)
            then (settings sv)\<lparr>delete_if_stalling := False, delete_if_stalling_dry_run := True\<rparr>
            else settings sv) \<and>
     (\<exists>evs. trace w' = trace w @ evs \<and> list_all supervisor_event evs \<and>
        (delete_if_stalling (settings sv) \<longrightarrow> Warn_delete_if_stalling_unsupported \<in> set evs) \<and>
        (\<forall>wc\<in>set (submitted_top_processes sv).
            wc \<in> set (submitted_top_processes sv') \<or> Info_stalling (pk wc) True \<in> set evs) \<and>
        (\<not> delete_if_stalling (settings sv) \<and> \<not> delete_if_stalling_dry_run (settings sv) \<longrightarrow>
           (\<exists>xs. submitted_top_processes sv' = submitted_top_processes sv @ xs)))"
proof -
  obtain sv1 w1 where g: "tmp_guard_against_delete_if_stalling sv w = (sv1, w1)"
    by (cases "tmp_guard_against_delete_if_stalling sv w")
  note gp = guard_props [OF g]
  let ?gev = "if delete_if_stalling (settings sv) then [Warn_delete_if_stalling_unsupported] else []"
  have core: "\<exists>evs. trace w' = trace w1 @ evs \<and> list_all supervisor_event evs \<and>
        (\<forall>wc\<in>set (submitted_top_processes sv1).
            wc \<in> set (submitted_top_processes sv') \<or> Info_stalling (pk wc) True \<in> set evs) \<and>
        (\<not> delete_if_stalling_dry_run (settings sv1) \<longrightarrow>
           (\<exists>xs. submitted_top_processes sv' = submitted_top_processes sv1 @ xs))"
      and sets: "settings sv' = settings sv1"
  proof -
    have "settings sv' = settings sv1 \<and> (\<exists>evs. trace w' = trace w1 @ evs \<and> list_all supervisor_event evs \<and>
        (\<forall>wc\<in>set (submitted_top_processes sv1).
            wc \<in> set (submitted_top_processes sv') \<or> Info_stalling (pk wc) True \<in> set evs) \<and>
        (\<not> delete_if_stalling_dry_run (settings sv1) \<longrightarrow>
           (\<exists>xs. submitted_top_processes sv' = submitted_top_processes sv1 @ xs)))"
    proof (cases "metadata_label builder = []")
      case True
      with res g have "sv' = sv1" "w' = w1" by (simp_all add: blocking_submit_def)
      then show ?thesis by simp
    next
      case lbl: False
      show ?thesis
      proof (cases "groups_list groups_arg")
        case None
        with res g lbl have "sv' = sv1" "w' = w1" by (simp_all add: blocking_submit_def)
        then show ?thesis by simp
      next
        case (Some gs)
        define ms where "ms = existing_matches eng builder gs w"
        define w2 where "w2 = w1\<lparr>trace := trace w1 @ map Ev_query gs @
                    (if 1 < length ms then [Info_found_multiple (length ms)] else [])\<rparr>"
        let ?qev = "map Ev_query gs @ (if 1 < length ms then [Info_found_multiple (length ms)] else [])"
        have w2: "trace w2 = trace w1 @ ?qev" by (simp add: w2_def)
        have qev: "list_all supervisor_event ?qev" "\<forall>k b. Info_stalling k b \<notin> set ?qev"
          by (auto simp: list_all_iff)
        note unf = blocking_submit_unfold [OF lbl Some g ms_def w2_def, of fuel]
        consider (loaded) k e where "sv' = sv1" "w' = emit e (emit (Ev_load_node k) w2) \<or> w' = emit (Ev_load_node k) w2"
            "supervisor_event e"
          | (queued) k p where "sv' = sv1\<lparr>submitted_top_processes := submitted_top_processes sv1 @ [p]\<rparr>"
              "w' = emit Info_not_terminated (emit (Ev_load_node k) w2)"
          | (branch) "submit_branch fuel eng sv1 builder (process_class_name builder) gs
                  (filter is_terminated ms) w2 = Some (r, sv', w')"
        proof (cases "filter is_finished_ok ms")
          case (Cons wc rest)
          obtain lr w3 where ld: "load_node (pk wc) w2 = (lr, w3)" by (cases "load_node (pk wc) w2")
          from res unf Cons ld load_node_world [OF ld]
          have "sv' = sv1" "w' = emit Info_loaded_finished_ok (emit (Ev_load_node (pk wc)) w2) \<or> w' = emit (Ev_load_node (pk wc)) w2"
            by (auto split: sum.splits)
          then show ?thesis using loaded [where k = "pk wc" and e = Info_loaded_finished_ok] by simp
        next
          case Nil
          show ?thesis
          proof (cases "filter is_terminated ms \<noteq> [] \<and> \<not> resubmit_failed (settings sv1)")
            case True
            obtain lr w3 where ld: "load_node (pk (hd (filter is_terminated ms))) w2 = (lr, w3)"
              by (cases "load_node (pk (hd (filter is_terminated ms))) w2")
            from res unf Nil True ld load_node_world [OF ld]
            have "sv' = sv1" "w' = emit Info_loaded_terminated (emit (Ev_load_node (pk (hd (filter is_terminated ms)))) w2)
                 \<or> w' = emit (Ev_load_node (pk (hd (filter is_terminated ms)))) w2"
              by (auto split: sum.splits)
            then show ?thesis using loaded [where k = "pk (hd (filter is_terminated ms))" and e = Info_loaded_terminated] by simp
          next
            case nt: False
            show ?thesis
            proof (cases "filter (\<lambda>proc. \<not> is_terminated proc) ms \<noteq> []")
              case True
              let ?k = "pk (hd (filter (\<lambda>proc. \<not> is_terminated proc) ms))"
              obtain lr w3 where ld: "load_node ?k w2 = (lr, w3)" by (cases "load_node ?k w2")
              from res unf Nil nt True ld load_node_world [OF ld]
              have "(sv' = sv1 \<and> w' = emit (Ev_load_node ?k) w2) \<or>
                  (\<exists>p. sv' = sv1\<lparr>submitted_top_processes := submitted_top_processes sv1 @ [p]\<rparr> \<and>
                    w' = emit Info_not_terminated (emit (Ev_load_node ?k) w2))"
                by (auto split: sum.splits)
              then show ?thesis using loaded [where k = ?k and e = Info_not_terminated] queued [where k = ?k] by auto
            next
              case False
              with res unf Nil nt show ?thesis using branch by auto
            qed
          qed
        qed
        then show ?thesis
        proof cases
          case loaded
          from loaded(2) obtain evs where "w' = w2\<lparr>trace := trace w2 @ evs\<rparr>" "list_all supervisor_event evs"
          proof
            assume "w' = emit e (emit (Ev_load_node k) w2)"
            then show ?thesis using that [of "[Ev_load_node k, e]"] loaded(3)
              by (simp add: emit_def)
          next
            assume "w' = emit (Ev_load_node k) w2"
            then show ?thesis using that [of "[Ev_load_node k]"] by (simp add: emit_def)
          qed
          then have "trace w' = trace w1 @ (?qev @ evs)" "list_all supervisor_event (?qev @ evs)"
            using qev(1) by (simp_all add: w2)
          with loaded(1) show ?thesis by (intro conjI exI [where x = "?qev @ evs"]) simp_all
        next
          case queued
          have "trace w' = trace w1 @ (?qev @ [Ev_load_node k, Info_not_terminated])"
            by (simp add: queued w2)
          moreover have "list_all supervisor_event (?qev @ [Ev_load_node k, Info_not_terminated])"
            using qev(1) by simp
          ultimately show ?thesis using queued(1)
            by (intro conjI exI [where x = "?qev @ [Ev_load_node k, Info_not_terminated]"]) simp_all
        next
          case branch
          from submit_branch_effects [OF gp(5) branch] obtain evs where
            b: "settings sv' = settings sv1" "trace w' = trace w2 @ evs" "list_all supervisor_event evs"
              "\<forall>wc\<in>set (submitted_top_processes sv1).
                  wc \<in> set (submitted_top_processes sv') \<or> Info_stalling (pk wc) True \<in> set evs"
              "\<not> delete_if_stalling_dry_run (settings sv1) \<longrightarrow>
                 (\<exists>xs. submitted_top_processes sv' = submitted_top_processes sv1 @ xs)"
            by blast
          have "trace w' = trace w1 @ (?qev @ evs)" by (simp add: b w2)
          moreover have "list_all supervisor_event (?qev @ evs)" using qev(1) b(3) by simp
          moreover have "\<forall>wc\<in>set (submitted_top_processes sv1).
                  wc \<in> set (submitted_top_processes sv') \<or> Info_stalling (pk wc) True \<in> set (?qev @ evs)"
            using b(4) by auto
          ultimately show ?thesis using b(1) b(5) by blast
        qed
      qed
    qed
    then show "\<exists>evs. trace w' = trace w1 @ evs \<and> list_all supervisor_event evs \<and>
        (\<forall>wc\<in>set (submitted_top_processes sv1).
            wc \<in> set (submitted_top_processes sv') \<or> Info_stalling (pk wc) True \<in> set evs) \<and>
        (\<not> delete_if_stalling_dry_run (settings sv1) \<longrightarrow>
           (\<exists>xs. submitted_top_processes sv' = submitted_top_processes sv1 @ xs))"
      and "settings sv' = settings sv1" by blast+
  qed
  from core obtain evs where
    c: "trace w' = trace w1 @ evs" "list_all supervisor_event evs"
       "\<forall>wc\<in>set (submitted_top_processes sv1).
            wc \<in> set (submitted_top_processes sv') \<or> Info_stalling (pk wc) True \<in> set evs"
       "\<not> delete_if_stalling_dry_run (settings sv1) \<longrightarrow>
           (\<exists>xs. submitted_top_processes sv' = submitted_top_processes sv1 @ xs)"
    by blast
  have a1: "trace w' = trace w @ (?gev @ evs)" by (simp add: c gp)
  have a2: "list_all supervisor_event (?gev @ evs)" using c(2) by simp
  have a3: "delete_if_stalling (settings sv) \<longrightarrow> Warn_delete_if_stalling_unsupported \<in> set (?gev @ evs)"
    by simp
  have a4: "\<forall>wc\<in>set (submitted_top_processes sv).
            wc \<in> set (submitted_top_processes sv') \<or> Info_stalling (pk wc) True \<in> set (?gev @ evs)"
    using c(3) by (auto simp: gp)
  have a5: "\<not> delete_if_stalling (settings sv) \<and> \<not> delete_if_stalling_dry_run (settings sv) \<longrightarrow>
           (\<exists>xs. submitted_top_processes sv' = submitted_top_processes sv @ xs)"
    using c(4) by (auto simp: gp)
  have a0: "settings sv' = (if delete_if_stalling (settings sv)
            then (settings sv)\<lparr>delete_if_stalling := False, delete_if_stalling_dry_run := True\<rparr>
            else settings sv)"
    using sets gp(7) by simp
  show ?thesis
    by (intro conjI exI [where x = "?gev @ evs"]) (rule a0 a1 a2 a3 a4 a5)+
qed
subsection \<open>A queue that stays full\<close>

lemma remaining_polls_step:
  assumes "0 < wait_for_submit s" and "waited \<le> max_wait_for_submit s"
  shows "remaining_polls s waited = Suc (remaining_polls s (waited + wait_for_submit s))"
proof (cases "max_wait_for_submit s < waited + wait_for_submit s")
  case True
  with assms have "(max_wait_for_submit s - waited) div wait_for_submit s = 0"
    by (intro div_pos_pos_trivial) simp_all
  with True assms show ?thesis by (simp add: remaining_polls_def)
next
  case False
  define a where "a = max_wait_for_submit s - (waited + wait_for_submit s)"
  have a: "0 \<le> a" "max_wait_for_submit s - waited = a + wait_for_submit s"
    using False by (simp_all add: a_def)
  have "(a + wait_for_submit s) div wait_for_submit s = a div wait_for_submit s + 1"
    by (rule div_add_self2) (use assms(1) in simp)
  moreover have "0 \<le> a div wait_for_submit s"
    using a(1) assms(1) by (simp add: pos_imp_zdiv_nonneg_iff)
  ultimately show ?thesis
    using False assms a by (simp add: remaining_polls_def a_def [symmetric] nat_add_distrib)
qed

lemma remaining_polls_done: "max_wait_for_submit s < waited \<Longrightarrow> remaining_polls s waited = 0"
  by (simp add: remaining_polls_def)

lemma cleanup_waiting:
  assumes "cleanup eng s tracked w = (tracked', w')" and "\<not> delete_if_stalling s"
  shows "store w' = store w \<and> clock w' = clock w \<and>
     (\<exists>evs. trace w' = trace w @ evs \<and> list_all waiting_event evs)"
proof (cases "delete_if_stalling_dry_run s")
  case False
  with assms show ?thesis by (simp add: cleanup_def)
next
  case True
  with assms have rs: "remove_stalling eng s tracked w = (tracked', w')" by (simp add: cleanup_def)
  have "store w' = store w \<and> clock w' = clock w \<and>
     (\<exists>evs. trace w' = trace w @ evs \<and> list_all waiting_event evs)"
    using rs
  proof (induction tracked arbitrary: w tracked' w')
    case Nil
    then show ?case by simp
  next
    case (Cons wc wcs)
    obtain gone w1 where st: "stalling eng s wc w = (gone, w1)" by (cases "stalling eng s wc w")
    obtain rest w2 where r: "remove_stalling eng s wcs w1 = (rest, w2)"
      by (cases "remove_stalling eng s wcs w1")
    from Cons.prems st r have "w' = w2" by (simp add: Let_def)
    note sp = stalling_simulated [OF st True]
    from Cons.IH [OF r] obtain evs where "store w2 = store w1" "clock w2 = clock w1"
      "trace w2 = trace w1 @ evs" "list_all waiting_event evs" by blast
    with sp \<open>w' = w2\<close> have "store w' = store w \<and> clock w' = clock w \<and>
       trace w' = trace w @ ((if gone then [Info_stalling (pk wc) True] else []) @ evs) \<and>
       list_all waiting_event ((if gone then [Info_stalling (pk wc) True] else []) @ evs)"
      by simp
    then show ?case by blast
  qed
  then show ?thesis .
qed

lemma submit_loop_times_out:
  assumes nd: "\<not> delete_if_stalling s" and pos: "0 < wait_for_submit s"
      and inv: "\<And>t n st. I st \<Longrightarrow> I (evolve eng t n st)"
      and full: "\<And>w. I (store w) \<Longrightarrow> fst (queue_too_full eng s pl w)"
  shows "I (store w) \<Longrightarrow> remaining_polls s waited < fuel \<Longrightarrow>
     \<exists>tracked' w' evs.
        submit_loop fuel eng s b pl gs waited tracked w = Some (Inr (None, None), tracked', w')
      \<and> clock w' = clock w + int (remaining_polls s waited) * (wait_for_submit s * seconds_per_min s)
      \<and> trace w' = trace w @ evs @
           [Warn_timed_out (waited + int (remaining_polls s waited) * wait_for_submit s)]
      \<and> list_all waiting_event evs \<and> I (store w')"
proof (induction fuel arbitrary: waited tracked w)
  case 0
  then show ?case by simp
next
  case (Suc fuel)
  show ?case
  proof (cases "waited \<le> max_wait_for_submit s")
    case False
    then have "remaining_polls s waited = 0" by (simp add: remaining_polls_done)
    moreover from False have "submit_loop (Suc fuel) eng s b pl gs waited tracked w =
        Some (Inr (None, None), tracked, emit (Warn_timed_out waited) w)"
      by (simp add: submit_loop_Suc)
    ultimately show ?thesis
      using Suc.prems(1)
      by (intro exI [where x = tracked] exI [where x = "emit (Warn_timed_out waited) w"]
            exI [where x = "[]"]) simp
  next
    case True
    let ?n = "wait_for_submit s * seconds_per_min s"
    have n: "0 \<le> ?n" using pos by (simp add: seconds_per_min_def)
    obtain tracked1 w1 where c: "cleanup eng s tracked w = (tracked1, w1)"
      by (cases "cleanup eng s tracked w")
    from cleanup_waiting [OF c nd] obtain evs1 where
      c1: "store w1 = store w" "clock w1 = clock w" "trace w1 = trace w @ evs1"
        "list_all waiting_event evs1" by blast
    obtain too_full w2 where q: "queue_too_full eng s pl w1 = (too_full, w2)"
      by (cases "queue_too_full eng s pl w1")
    have "too_full" using full [of w1] Suc.prems(1) q by (simp add: c1)
    note qp = queue_too_full_props [OF q]
    from qp(3) obtain evs2 where q2: "trace w2 = trace w1 @ evs2" "list_all waiting_event evs2"
      by (elim disjE) simp_all
    define w3 where "w3 = emit (Ev_sleep ?n)
        (w2\<lparr>store := evolve eng (clock w2) (nat ?n) (store w2), clock := clock w2 + ?n\<rparr>)"
    have sl: "sleep eng ?n w2 = Inr w3" using n by (simp add: sleep_def w3_def)
    have w3: "I (store w3)" "clock w3 = clock w + ?n" "trace w3 = trace w2 @ [Ev_sleep ?n]"
      using inv Suc.prems(1) by (simp_all add: w3_def qp c1)
    have step: "remaining_polls s waited = Suc (remaining_polls s (waited + wait_for_submit s))"
      by (rule remaining_polls_step [OF pos True])
    with Suc.prems(2) have "remaining_polls s (waited + wait_for_submit s) < fuel" by simp
    from Suc.IH [OF w3(1) this, of tracked1] obtain tracked' w' evs where
      ih: "submit_loop fuel eng s b pl gs (waited + wait_for_submit s) tracked1 w3
             = Some (Inr (None, None), tracked', w')"
          "clock w' = clock w3 + int (remaining_polls s (waited + wait_for_submit s)) * ?n"
          "trace w' = trace w3 @ evs @
             [Warn_timed_out (waited + wait_for_submit s +
                int (remaining_polls s (waited + wait_for_submit s)) * wait_for_submit s)]"
          "list_all waiting_event evs" "I (store w')"
      by blast
    have run: "submit_loop (Suc fuel) eng s b pl gs waited tracked w = Some (Inr (None, None), tracked', w')"
      using True c q \<open>too_full\<close> sl ih(1) by (simp add: submit_loop_Suc)
    let ?evs = "evs1 @ evs2 @ [Ev_sleep ?n] @ evs"
    have r1: "clock w' = clock w + int (remaining_polls s waited) * ?n"
      by (simp add: ih(2) w3(2) step algebra_simps)
    have r2: "trace w' = trace w @ ?evs @
           [Warn_timed_out (waited + int (remaining_polls s waited) * wait_for_submit s)]"
      by (simp add: ih(3) w3(3) q2(1) c1(3) step algebra_simps)
    have r3: "list_all waiting_event ?evs" using c1(4) q2(2) ih(4) by simp
    show ?thesis
      by (intro exI [where x = tracked'] exI [where x = w'] exI [where x = ?evs] conjI)
         (rule run r1 r2 r3 ih(5))+
  qed
qed

lemma stage_builder_plain:
  assumes "\<not> (resubmit_failed s \<and> resubmit_failed_as_restart s)"
  shows "stage_builder eng s builder ts w =
     (Inr builder, emit (Info_staging_submit (resubmit_failed s) False False) w)"
  using assms by (auto simp: stage_builder_def)

lemma queue_too_full_settings:
  assumes "max_top_processes_running s' = max_top_processes_running s"
      and "max_all_processes_running s' = max_all_processes_running s"
  shows "queue_too_full eng s' pl w = queue_too_full eng s pl w"
  using assms by (simp add: queue_too_full_def Let_def split: prod.splits)

lemma guard_keeps:
  assumes "tmp_guard_against_delete_if_stalling sv w = (sv1, w1)"
  shows "wait_for_submit (settings sv1) = wait_for_submit (settings sv)"
    "seconds_per_min (settings sv1) = seconds_per_min (settings sv)"
    "resubmit_failed (settings sv1) = resubmit_failed (settings sv)"
    "resubmit_failed_as_restart (settings sv1) = resubmit_failed_as_restart (settings sv)"
    "remaining_polls (settings sv1) = remaining_polls (settings sv)"
    "queue_too_full eng (settings sv1) = queue_too_full eng (settings sv)"
proof -
  note g = guard_props(7) [OF assms]
  show "wait_for_submit (settings sv1) = wait_for_submit (settings sv)"
    "seconds_per_min (settings sv1) = seconds_per_min (settings sv)"
    "resubmit_failed (settings sv1) = resubmit_failed (settings sv)"
    "resubmit_failed_as_restart (settings sv1) = resubmit_failed_as_restart (settings sv)"
    "remaining_polls (settings sv1) = remaining_polls (settings sv)"
    using g by (auto simp: seconds_per_min_def remaining_polls_def fun_eq_iff)
  have "queue_too_full eng (settings sv1) pl w' = queue_too_full eng (settings sv) pl w'" for pl w'
    by (rule queue_too_full_settings) (simp_all add: g)
  then show "queue_too_full eng (settings sv1) = queue_too_full eng (settings sv)"
    by (simp add: fun_eq_iff)
qed


lemma destructive_run:
  "blocking_submit 1 static_engine destructive_supervisor builder_A (OneGroup ''g'') late_world =
     Some (Inr (None, Some False),
           simulating_supervisor\<lparr>submitted_top_processes := []\<rparr>,
           late_world\<lparr>trace := [Warn_delete_if_stalling_unsupported, Ev_query ''g'',
              Info_staging_submit False False False,
              Info_stalling 3 True, Ev_count_running 0, Ev_count_running 1, Ev_count_running 0,
              Ev_count_running 1, Info_try_submit 0, Info_dry_run_would_submit]\<rparr>)"
  by (simp add: blocking_submit_def tmp_guard_against_delete_if_stalling_def
        simulating_supervisor_def destructive_supervisor_def default_settings_def builder_A_def
        late_world_def
        node_B_running_def static_engine_def query_processes_def matches_filters_def truthy_def
        group_members_def emit_def submit_branch_def stage_builder_def submit_loop.simps
        stalling_def is_stalling_def node_mtime_def queue_too_full_def num_running_def
        get_process_states_def states_subset_def try_submit_def Let_def)

lemma matches_world_busy:
  "existing_matches static_engine builder_A [''g''] (world_of [node_B_running] []) = []"
  by (simp add: existing_matches_def query_processes_def world_of_def emit_def group_members_def)

lemma busy_world_full:
  assumes "store w = store (world_of [node_B_running] [])"
  shows "fst (queue_too_full static_engine (settings timeout_test_supervisor)
                (process_class_name builder_A) w)"
  using assms
  by (simp add: queue_too_full_def num_running_def query_processes_def matches_filters_def
        truthy_def get_process_states_def states_subset_def static_engine_def
        timeout_test_supervisor_def supervisor_of_def default_settings_def builder_A_def
        world_of_def node_B_running_def Let_def)

subsection \<open>The guard against deleting stalling processes\<close>

text \<open>
  Claim C3. The constructor, given settings with \<^verbatim>\<open>delete_if_stalling\<close> set, leaves the
  supervisor with \<^verbatim>\<open>delete_if_stalling\<close> off and \<^verbatim>\<open>delete_if_stalling_dry_run\<close> on and
  prints the warning. Every call of \<^verbatim>\<open>blocking_submit\<close> that ends, with a result or an
  exception, leaves \<^verbatim>\<open>delete_if_stalling\<close> off; a call that found it set leaves
  \<^verbatim>\<open>delete_if_stalling_dry_run\<close> on and has printed the warning, any other call leaves the
  settings as they were. No call deletes nodes.
\<close>

theorem guard_against_delete_if_stalling:
  "(delete_if_stalling s \<longrightarrow>
      \<not> delete_if_stalling (settings (fst (SubmissionSupervisor_init s quota_querier w))) \<and>
      delete_if_stalling_dry_run (settings (fst (SubmissionSupervisor_init s quota_querier w))) \<and>
      trace (snd (SubmissionSupervisor_init s quota_querier w)) =
        trace w @ [Warn_delete_if_stalling_unsupported]) \<and>
   (blocking_submit fuel eng sv builder groups_arg w0 = Some (r, sv', w') \<longrightarrow>
      \<not> delete_if_stalling (settings sv') \<and>
      (delete_if_stalling (settings sv) \<longrightarrow> delete_if_stalling_dry_run (settings sv')) \<and>
      (\<not> delete_if_stalling (settings sv) \<longrightarrow> settings sv' = settings sv) \<and>
      (\<exists>evs. trace w' = trace w0 @ evs \<and> (\<forall>k. Ev_delete_nodes k \<notin> set evs) \<and>
             (delete_if_stalling (settings sv) \<longrightarrow>
                Warn_delete_if_stalling_unsupported \<in> set evs)))"
proof (intro conjI impI)
  assume d: "delete_if_stalling s"
  then show "\<not> delete_if_stalling (settings (fst (SubmissionSupervisor_init s quota_querier w)))"
    "delete_if_stalling_dry_run (settings (fst (SubmissionSupervisor_init s quota_querier w)))"
    "trace (snd (SubmissionSupervisor_init s quota_querier w)) =
        trace w @ [Warn_delete_if_stalling_unsupported]"
    by (simp_all add: SubmissionSupervisor_init_def tmp_guard_against_delete_if_stalling_def)
next
  assume res: "blocking_submit fuel eng sv builder groups_arg w0 = Some (r, sv', w')"
  from blocking_submit_effects [OF res] obtain evs where
    e: "settings sv' = (if delete_if_stalling (settings sv)
            then (settings sv)\<lparr>delete_if_stalling := False, delete_if_stalling_dry_run := True\<rparr>
            else settings sv)"
       "trace w' = trace w0 @ evs" "list_all supervisor_event evs"
       "delete_if_stalling (settings sv) \<longrightarrow> Warn_delete_if_stalling_unsupported \<in> set evs"
    by blast
  show "\<not> delete_if_stalling (settings sv')" by (simp add: e(1))
  show "delete_if_stalling_dry_run (settings sv')" if "delete_if_stalling (settings sv)"
    using that by (simp add: e(1))
  show "settings sv' = settings sv" if "\<not> delete_if_stalling (settings sv)"
    using that by (simp add: e(1))
  have "\<forall>k. Ev_delete_nodes k \<notin> set evs"
    using e(3) by (auto simp: list_all_iff)
  with e(2,4) show "\<exists>evs. trace w' = trace w0 @ evs \<and> (\<forall>k. Ev_delete_nodes k \<notin> set evs) \<and>
             (delete_if_stalling (settings sv) \<longrightarrow>
                Warn_delete_if_stalling_unsupported \<in> set evs)"
    by blast
qed

text \<open>
  The theorem at a supervisor with the deletion requested that tracks a stalling
  process: the warning is printed, the stalling is only announced.
\<close>

theorem guard_against_delete_if_stalling_witness:
  "delete_if_stalling (settings destructive_supervisor) \<and>
   \<not> delete_if_stalling
       (settings (fst (SubmissionSupervisor_init (settings destructive_supervisor) None late_world))) \<and>
   delete_if_stalling_dry_run
       (settings (fst (SubmissionSupervisor_init (settings destructive_supervisor) None late_world))) \<and>
   trace (snd (SubmissionSupervisor_init (settings destructive_supervisor) None late_world)) =
      trace late_world @ [Warn_delete_if_stalling_unsupported] \<and>
   blocking_submit 1 static_engine destructive_supervisor builder_A (OneGroup ''g'') late_world =
     Some (Inr (None, Some False),
           simulating_supervisor\<lparr>submitted_top_processes := []\<rparr>,
           late_world\<lparr>trace := [Warn_delete_if_stalling_unsupported, Ev_query ''g'',
              Info_staging_submit False False False,
              Info_stalling 3 True, Ev_count_running 0, Ev_count_running 1, Ev_count_running 0,
              Ev_count_running 1, Info_try_submit 0, Info_dry_run_would_submit]\<rparr>) \<and>
   \<not> delete_if_stalling (settings (simulating_supervisor\<lparr>submitted_top_processes := []\<rparr>)) \<and>
   delete_if_stalling_dry_run (settings (simulating_supervisor\<lparr>submitted_top_processes := []\<rparr>)) \<and>
   (\<exists>evs. trace (late_world\<lparr>trace := [Warn_delete_if_stalling_unsupported, Ev_query ''g'',
              Info_staging_submit False False False,
              Info_stalling 3 True, Ev_count_running 0, Ev_count_running 1, Ev_count_running 0,
              Ev_count_running 1, Info_try_submit 0, Info_dry_run_would_submit]\<rparr>)
            = trace late_world @ evs \<and> (\<forall>k. Ev_delete_nodes k \<notin> set evs) \<and>
          Warn_delete_if_stalling_unsupported \<in> set evs)"
proof -
  have d: "delete_if_stalling (settings destructive_supervisor)"
    by (simp add: destructive_supervisor_def default_settings_def)
  note t = guard_against_delete_if_stalling [where s = "settings destructive_supervisor"
      and quota_querier = None and w = late_world and fuel = 1 and eng = static_engine
      and sv = destructive_supervisor and builder = builder_A and groups_arg = "OneGroup ''g''"
      and ?w0.0 = late_world and r = "Inr (None, Some False)"
      and sv' = "simulating_supervisor\<lparr>submitted_top_processes := []\<rparr>"
      and w' = "late_world\<lparr>trace := [Warn_delete_if_stalling_unsupported, Ev_query ''g'',
              Info_staging_submit False False False,
              Info_stalling 3 True, Ev_count_running 0, Ev_count_running 1, Ev_count_running 0,
              Ev_count_running 1, Info_try_submit 0, Info_dry_run_would_submit]\<rparr>"]
  from t d destructive_run show ?thesis by blast
qed
subsection \<open>The tracked processes\<close>



subsection \<open>Timing out in the waiting line\<close>

text \<open>
  Claim C5, as amended. A call with no existing match that gets to the waiting line
  (the builder is labelled, groups are given, the two retry flags are not both set, the
  quota querier, if any, finds space) with a positive \<^verbatim>\<open>wait_for_submit\<close> times out
  when every poll finds a ceiling surpassed, that is, more running processes than the
  ceiling allows: under a ceiling of 0 at least one. Here the stores that surpass a
  ceiling are described by a property \<open>I\<close> that the initial store has and the world
  keeps while the call sleeps. The call then returns \<^verbatim>\<open>(None, None)\<close> after
  \<open>polls\<close> polls, each followed by a sleep of \<^verbatim>\<open>wait_for_submit\<close> minutes (seconds in a
  dry run), the bound \<^verbatim>\<open>max_wait_for_submit\<close> included; it prints the time-out warning
  last and submits nothing, given fuel for more than \<open>polls\<close> tests of the loop
  condition.
\<close>

theorem blocking_submit_times_out:
  assumes lbl: "metadata_label builder \<noteq> []"
      and gs: "groups_list groups_arg = Some gs"
      and nomatch: "existing_matches eng builder gs w = []"
      and stage: "\<not> (resubmit_failed (settings sv) \<and> resubmit_failed_as_restart (settings sv))"
      and quota: "case quotaq sv of None \<Rightarrow> True | Some q \<Rightarrow> is_min_free_space_left q (clock w)"
      and pos: "0 < wait_for_submit (settings sv)"
      and inv0: "I (store w)"
      and inv: "\<And>t n st. I st \<Longrightarrow> I (evolve eng t n st)"
      and full: "\<And>w. I (store w) \<Longrightarrow>
                   fst (queue_too_full eng (settings sv) (process_class_name builder) w)"
      and fuel: "polls (settings sv) < fuel"
  shows "\<exists>sv' w' evs.
           blocking_submit fuel eng sv builder groups_arg w = Some (Inr (None, None), sv', w')
         \<and> clock w' = clock w + int (polls (settings sv)) *
                                  (wait_for_submit (settings sv) * seconds_per_min (settings sv))
         \<and> trace w' = trace w @ evs @
              [Warn_timed_out (int (polls (settings sv)) * wait_for_submit (settings sv))]
         \<and> (\<forall>b. Ev_submit b \<notin> set evs) \<and> I (store w')"
proof -
  obtain sv1 w1 where g: "tmp_guard_against_delete_if_stalling sv w = (sv1, w1)"
    by (cases "tmp_guard_against_delete_if_stalling sv w")
  note gp = guard_props [OF g] and gk = guard_keeps [OF g]
  define ms where "ms = existing_matches eng builder gs w"
  define w2 where "w2 = w1\<lparr>trace := trace w1 @ map Ev_query gs @
                    (if 1 < length ms then [Info_found_multiple (length ms)] else [])\<rparr>"
  have ms: "ms = []" by (simp add: ms_def nomatch)
  define w3 where "w3 = emit (Info_staging_submit (resubmit_failed (settings sv1)) False False) w2"
  define wq where "wq = (case quotaq sv of None \<Rightarrow> w3 | Some q \<Rightarrow> emit Ev_quota_check w3)"
  let ?pre = "(if delete_if_stalling (settings sv) then [Warn_delete_if_stalling_unsupported] else [])
      @ map Ev_query gs @ [Info_staging_submit (resubmit_failed (settings sv1)) False False]
      @ (case quotaq sv of None \<Rightarrow> [] | Some q \<Rightarrow> [Ev_quota_check])"
  have wq: "store wq = store w" "clock wq = clock w" "trace wq = trace w @ ?pre"
    by (simp_all add: wq_def w3_def w2_def gp ms split: option.splits)
  have clk3: "clock w3 = clock w" by (simp add: w3_def w2_def gp)
  have st: "stage_builder eng (settings sv1) builder [] w2 = (Inr builder, w3)"
    unfolding w3_def by (rule stage_builder_plain) (simp add: gk stage)
  have branch: "blocking_submit fuel eng sv builder groups_arg w =
      map_option (\<lambda>(r, tracked, w'). (r, sv1\<lparr>submitted_top_processes := tracked\<rparr>, w'))
        (submit_loop fuel eng (settings sv1) builder (process_class_name builder) gs 0
           (submitted_top_processes sv1) wq)"
  proof -
    have "blocking_submit fuel eng sv builder groups_arg w =
        submit_branch fuel eng sv1 builder (process_class_name builder) gs [] w2"
      using blocking_submit_unfold [OF lbl gs g ms_def w2_def, of fuel] by (simp add: ms)
    also have "\<dots> = map_option (\<lambda>(r, tracked, w'). (r, sv1\<lparr>submitted_top_processes := tracked\<rparr>, w'))
        (submit_loop fuel eng (settings sv1) builder (process_class_name builder) gs 0
           (submitted_top_processes sv1) wq)"
      using quota
      by (simp add: submit_branch_def st wq_def gp(4) clk3 split: option.splits)
    finally show ?thesis .
  qed
  have full1: "\<And>w. I (store w) \<Longrightarrow>
      fst (queue_too_full eng (settings sv1) (process_class_name builder) w)"
    using full by (simp add: gk)
  have "remaining_polls (settings sv1) 0 < fuel"
    using fuel by (simp add: polls_def gk)
  from submit_loop_times_out [where I = I and s = "settings sv1", OF gp(5) _ inv full1 _ this,
      of wq builder gs "submitted_top_processes sv1"] pos inv0
  obtain tracked' w' evs where
    l: "submit_loop fuel eng (settings sv1) builder (process_class_name builder) gs 0
          (submitted_top_processes sv1) wq = Some (Inr (None, None), tracked', w')"
       "clock w' = clock wq + int (remaining_polls (settings sv1) 0) *
           (wait_for_submit (settings sv1) * seconds_per_min (settings sv1))"
       "trace w' = trace wq @ evs @
           [Warn_timed_out (0 + int (remaining_polls (settings sv1) 0) * wait_for_submit (settings sv1))]"
       "list_all waiting_event evs" "I (store w')"
    by (auto simp: gk wq)
  have r0: "blocking_submit fuel eng sv builder groups_arg w =
      Some (Inr (None, None), sv1\<lparr>submitted_top_processes := tracked'\<rparr>, w')"
    by (simp add: branch l(1))
  have r1: "clock w' = clock w + int (polls (settings sv)) *
                                  (wait_for_submit (settings sv) * seconds_per_min (settings sv))"
    by (simp add: l(2) wq polls_def gk)
  have r2: "trace w' = trace w @ (?pre @ evs) @
              [Warn_timed_out (int (polls (settings sv)) * wait_for_submit (settings sv))]"
    by (simp add: l(3) wq polls_def gk)
  have r3: "\<forall>b. Ev_submit b \<notin> set (?pre @ evs)"
    using l(4) by (auto simp: list_all_iff split: option.splits)
  show ?thesis
    by (intro exI [where x = "sv1\<lparr>submitted_top_processes := tracked'\<rparr>"] exI [where x = w']
          exI [where x = "?pre @ evs"] conjI) (rule r0 r1 r2 r3 l(5))+
qed

text \<open>
  The claim as stated fails: under a ceiling of 0 and with nothing running, no ceiling
  is surpassed (the comparison is strict) and the call reaches the submit branch at the
  first poll.
\<close>

theorem submit_branch_reached_with_zero_ceiling:
  "max_top_processes_running (settings timeout_test_supervisor) = 0 \<and>
   existing_matches static_engine builder_A [''g''] (world_of [] []) = [] \<and>
   blocking_submit 1 static_engine timeout_test_supervisor builder_A (OneGroup ''g'') (world_of [] []) =
     Some (Inr (None, Some False), timeout_test_supervisor,
           (world_of [] [])\<lparr>trace := [Ev_query ''g'', Info_staging_submit False False False,
              Ev_count_running 0, Ev_count_running 1, Ev_count_running 0, Ev_count_running 1,
              Info_try_submit 0, Info_dry_run_would_submit]\<rparr>)"
proof -
  have "blocking_submit 1 static_engine timeout_test_supervisor builder_A (OneGroup ''g'') (world_of [] []) =
     Some (Inr (None, Some False), timeout_test_supervisor,
           (world_of [] [])\<lparr>trace := [Ev_query ''g'', Info_staging_submit False False False,
              Ev_count_running 0, Ev_count_running 1, Ev_count_running 0, Ev_count_running 1,
              Info_try_submit 0, Info_dry_run_would_submit]\<rparr>)"
    by (simp add: blocking_submit_def tmp_guard_against_delete_if_stalling_def
        timeout_test_supervisor_def supervisor_of_def default_settings_def builder_A_def world_of_def
        static_engine_def query_processes_def matches_filters_def truthy_def
        group_members_def emit_def submit_branch_def stage_builder_def submit_loop.simps
        queue_too_full_def num_running_def
        get_process_states_def states_subset_def try_submit_def Let_def)
  then show ?thesis
    by (simp add: matches_world_empty timeout_test_supervisor_def supervisor_of_def default_settings_def)
qed

text \<open>
  The amended claim at the settings of the example, with one process running: two
  polls and two seconds of sleep.
\<close>

theorem blocking_submit_times_out_witness:
  "metadata_label builder_A \<noteq> [] \<and> groups_list (OneGroup ''g'') = Some [''g''] \<and>
   existing_matches static_engine builder_A [''g''] (world_of [node_B_running] []) = [] \<and>
   \<not> resubmit_failed (settings timeout_test_supervisor) \<and>
   quotaq timeout_test_supervisor = None \<and>
   0 < wait_for_submit (settings timeout_test_supervisor) \<and>
   max_top_processes_running (settings timeout_test_supervisor) = 0 \<and>
   polls (settings timeout_test_supervisor) = 2 \<and>
   (\<exists>sv' w' evs.
      blocking_submit 3 static_engine timeout_test_supervisor builder_A (OneGroup ''g'')
        (world_of [node_B_running] []) = Some (Inr (None, None), sv', w')
      \<and> clock w' = 2
      \<and> trace w' = evs @ [Warn_timed_out 2]
      \<and> (\<forall>b. Ev_submit b \<notin> set evs)
      \<and> store w' = store (world_of [node_B_running] []))"
proof -
  have h1: "metadata_label builder_A \<noteq> []" by (simp add: builder_A_def)
  have h2: "groups_list (OneGroup ''g'') = Some [''g'']" by simp
  note h3 = matches_world_busy
  have s: "\<not> resubmit_failed (settings timeout_test_supervisor)"
     "quotaq timeout_test_supervisor = None"
     "0 < wait_for_submit (settings timeout_test_supervisor)"
     "max_top_processes_running (settings timeout_test_supervisor) = 0"
     "wait_for_submit (settings timeout_test_supervisor) = 1"
     "seconds_per_min (settings timeout_test_supervisor) = 1"
    by (simp_all add: timeout_test_supervisor_def supervisor_of_def default_settings_def
          seconds_per_min_def)
  have p: "polls (settings timeout_test_supervisor) = 2"
    by (simp add: polls_def remaining_polls_def timeout_test_supervisor_def supervisor_of_def
          default_settings_def)
  have c: "clock (world_of [node_B_running] []) = 0" "trace (world_of [node_B_running] []) = []"
    by (simp_all add: world_of_def)
  have e: "evolve static_engine t n st = st" for t n st
    by (simp add: static_engine_def)
  from blocking_submit_times_out [where I = "\<lambda>st. st = store (world_of [node_B_running] [])"
      and builder = builder_A and groups_arg = "OneGroup ''g''" and gs = "[''g'']"
      and eng = static_engine and w = "world_of [node_B_running] []"
      and sv = timeout_test_supervisor and fuel = 3, OF h1 h2 h3]
    busy_world_full s p c e
  have "\<exists>sv' w' evs.
      blocking_submit 3 static_engine timeout_test_supervisor builder_A (OneGroup ''g'')
        (world_of [node_B_running] []) = Some (Inr (None, None), sv', w')
      \<and> clock w' = 2
      \<and> trace w' = evs @ [Warn_timed_out 2]
      \<and> (\<forall>b. Ev_submit b \<notin> set evs)
      \<and> store w' = store (world_of [node_B_running] [])"
    by simp
  with h1 h2 h3 s p show ?thesis by blast
qed
subsection \<open>A first submission under the default settings\<close>

text \<open>
  Claim C1. With no match at all and the default settings (both retry flags set), the
  call does not get to the waiting line: staging the builder takes the first terminated
  match of an empty list, which is an IndexError. Nothing is submitted.
\<close>

theorem blocking_submit_index_error_without_matches:
  "blocking_submit 5 static_engine (supervisor_of default_settings) builder_A (OneGroup ''g'')
     (world_of [] []) =
   Some (Inl IndexError, supervisor_of default_settings, (world_of [] [])\<lparr>trace := [Ev_query ''g'']\<rparr>)"
  by (simp add: blocking_submit_def tmp_guard_against_delete_if_stalling_def
        supervisor_of_def default_settings_def builder_A_def world_of_def
        static_engine_def query_processes_def emit_def group_members_def
        submit_branch_def stage_builder_def)

text \<open>
  The same for every engine, store and builder: no match and both retry flags set end
  in the IndexError.
\<close>

lemma blocking_submit_restart_without_failed_match:
  assumes lbl: "metadata_label builder \<noteq> []"
      and gs: "groups_list groups_arg = Some gs"
      and nomatch: "existing_matches eng builder gs w = []"
      and flags: "resubmit_failed (settings sv)" "resubmit_failed_as_restart (settings sv)"
  shows "\<exists>sv' w'. blocking_submit fuel eng sv builder groups_arg w = Some (Inl IndexError, sv', w')
           \<and> store w' = store w \<and> clock w' = clock w
           \<and> submitted_top_processes sv' = submitted_top_processes sv"
proof -
  obtain sv1 w1 where g: "tmp_guard_against_delete_if_stalling sv w = (sv1, w1)"
    by (cases "tmp_guard_against_delete_if_stalling sv w")
  note gp = guard_props [OF g] and gk = guard_keeps [OF g]
  define ms where "ms = existing_matches eng builder gs w"
  define w2 where "w2 = w1\<lparr>trace := trace w1 @ map Ev_query gs @
                    (if 1 < length ms then [Info_found_multiple (length ms)] else [])\<rparr>"
  have ms: "ms = []" by (simp add: ms_def nomatch)
  have "blocking_submit fuel eng sv builder groups_arg w =
        submit_branch fuel eng sv1 builder (process_class_name builder) gs [] w2"
    using blocking_submit_unfold [OF lbl gs g ms_def w2_def, of fuel] by (simp add: ms)
  also have "\<dots> = Some (Inl IndexError, sv1, w2)"
    using flags by (simp add: submit_branch_def stage_builder_def gk)
  finally show ?thesis
    using gp by (simp add: w2_def)
qed
subsection \<open>A submission that goes through\<close>

lemma remove_stalling_subset:
  "remove_stalling eng s tracked w = (tracked', w') \<Longrightarrow> set tracked' \<subseteq> set tracked"
proof (induction tracked arbitrary: w tracked' w')
  case Nil
  then show ?case by simp
next
  case (Cons wc wcs)
  obtain gone w1 where st: "stalling eng s wc w = (gone, w1)" by (cases "stalling eng s wc w")
  obtain rest w2 where r: "remove_stalling eng s wcs w1 = (rest, w2)"
    by (cases "remove_stalling eng s wcs w1")
  from Cons.prems st r have "tracked' = (if gone then rest else wc # rest)" by (simp add: Let_def)
  with Cons.IH [OF r] show ?case by auto
qed

lemma cleanup_subset:
  "cleanup eng s tracked w = (tracked', w') \<Longrightarrow> set tracked' \<subseteq> set tracked"
  by (auto simp: cleanup_def split: if_splits dest: remove_stalling_subset)

lemma group_members_update:
  "group_members (st\<lparr>groups := AList.update g ms (groups st)\<rparr>) g' =
     (if g' = g then ms else group_members st g')"
  by (simp add: group_members_def update_conv')

lemma member_insert_members: "k \<in> set (insert_members [k] ms)"
  by (simp add: insert_members_def)

lemma add_to_groups_ok:
  assumes "pk p \<in> pk ` set (nodes (store w))" and "set gs \<subseteq> fst ` set (groups (store w))"
  shows "\<exists>w'. add_to_groups gs p w = (None, w') \<and> nodes (store w') = nodes (store w) \<and>
           clock w' = clock w \<and>
           trace w' = trace w @ map (\<lambda>g. Ev_add_nodes g [pk p]) gs \<and>
           (\<forall>g. g \<in> set gs \<or> pk p \<in> set (group_members (store w) g)
                 \<longrightarrow> pk p \<in> set (group_members (store w') g))"
  using assms
proof (induction gs arbitrary: w)
  case Nil
  then show ?case by simp
next
  case (Cons g gs)
  from Cons.prems(2) obtain ms where ms: "map_of (groups (store w)) g = Some ms"
    by (cases "map_of (groups (store w)) g") (auto simp: map_of_eq_None_iff)
  define w1 where "w1 = emit (Ev_add_nodes g [pk p])
      (w\<lparr>store := (store w)\<lparr>groups := AList.update g (insert_members [pk p] ms) (groups (store w))\<rparr>\<rparr>)"
  have an: "add_nodes g [p] w = Inr w1"
    using Cons.prems(1) ms by (simp add: add_nodes_def w1_def)
  have w1: "nodes (store w1) = nodes (store w)" "clock w1 = clock w"
    "trace w1 = trace w @ [Ev_add_nodes g [pk p]]"
    by (simp_all add: w1_def)
  have keys: "set gs \<subseteq> fst ` set (groups (store w1))"
    using Cons.prems(2) by (auto simp: w1_def dom_update)
  have mem: "pk p \<in> set (group_members (store w1) g')"
    if "g' = g \<or> pk p \<in> set (group_members (store w) g')" for g'
    using that by (auto simp: w1_def group_members_update member_insert_members)
  from Cons.IH [of w1] Cons.prems(1) keys w1 obtain w' where
    ih: "add_to_groups gs p w1 = (None, w')" "nodes (store w') = nodes (store w1)"
      "clock w' = clock w1" "trace w' = trace w1 @ map (\<lambda>g. Ev_add_nodes g [pk p]) gs"
      "\<forall>g. g \<in> set gs \<or> pk p \<in> set (group_members (store w1) g)
                 \<longrightarrow> pk p \<in> set (group_members (store w') g)"
    by auto
  have "add_to_groups (g # gs) p w = (None, w')" by (simp add: an ih(1))
  moreover have "\<forall>g'. g' \<in> set (g # gs) \<or> pk p \<in> set (group_members (store w) g')
                 \<longrightarrow> pk p \<in> set (group_members (store w') g')"
    using ih(5) mem by auto
  ultimately show ?case using ih(2-4) w1 by auto
qed

lemma empty_world_free:
  assumes "store u = store (world_of [] [])"
  shows "\<not> fst (queue_too_full static_engine
                  (settings (supervisor_of (default_settings\<lparr>resubmit_failed := False\<rparr>)))
                  (process_class_name builder_A) u)"
  using assms
  by (simp add: queue_too_full_def num_running_def query_processes_def static_engine_def
        supervisor_of_def default_settings_def world_of_def Let_def)

text \<open>
  The submission itself. A call with no existing match whose retry flags are not both
  set, outside a dry run, with space on the remote and no ceiling surpassed at the first
  poll, submits the caller's builder: the new process (stored by the engine, in a store
  that holds the target groups) is appended to the tracked list, added to every target
  group and returned with \<^verbatim>\<open>from_db = False\<close> after the cool-down sleep. One test of the
  loop condition is enough.
\<close>

theorem blocking_submit_submits:
  assumes lbl: "metadata_label builder \<noteq> []"
      and gs: "groups_list groups_arg = Some gs"
      and nomatch: "existing_matches eng builder gs w = []"
      and stage: "\<not> (resubmit_failed (settings sv) \<and> resubmit_failed_as_restart (settings sv))"
      and quota: "case quotaq sv of None \<Rightarrow> True | Some q \<Rightarrow> is_min_free_space_left q (clock w)"
      and live: "\<not> dry_run (settings sv)"
      and wait: "0 \<le> max_wait_for_submit (settings sv)"
      and free: "\<And>u. store u = store w \<Longrightarrow>
                   \<not> fst (queue_too_full eng (settings sv) (process_class_name builder) u)"
      and sub: "submit eng builder (clock w) (store w) = (p, st')"
      and stored: "pk p \<in> pk ` set (nodes st')"
      and grps: "set gs \<subseteq> fst ` set (groups st')"
      and cool: "0 \<le> wait_after_submit (settings sv)"
  shows "\<exists>sv' w' evs tracked st''.
           blocking_submit (Suc fuel) eng sv builder groups_arg w
             = Some (Inr (Some p, Some False), sv', w')
         \<and> submitted_top_processes sv' = tracked @ [p]
         \<and> set tracked \<subseteq> set (submitted_top_processes sv)
         \<and> trace w' = trace w @ evs
         \<and> Ev_submit builder \<in> set evs
         \<and> (\<forall>g\<in>set gs. Ev_add_nodes g [pk p] \<in> set evs)
         \<and> nodes st'' = nodes st'
         \<and> (\<forall>g\<in>set gs. pk p \<in> set (group_members st'' g))
         \<and> store w' = evolve eng (clock w)
                          (nat (wait_after_submit (settings sv) * seconds_per_min (settings sv))) st''
         \<and> clock w' = clock w + wait_after_submit (settings sv) * seconds_per_min (settings sv)"
proof -
  obtain sv1 w1 where g: "tmp_guard_against_delete_if_stalling sv w = (sv1, w1)"
    by (cases "tmp_guard_against_delete_if_stalling sv w")
  note gp = guard_props [OF g] and gk = guard_keeps [OF g]
  let ?s = "settings sv1"
  let ?pl = "process_class_name builder"
  have s1: "dry_run ?s = dry_run (settings sv)"
    "max_wait_for_submit ?s = max_wait_for_submit (settings sv)"
    "wait_after_submit ?s = wait_after_submit (settings sv)"
    by (simp_all add: gp(7))
  define ms where "ms = existing_matches eng builder gs w"
  define w2 where "w2 = w1\<lparr>trace := trace w1 @ map Ev_query gs @
                    (if 1 < length ms then [Info_found_multiple (length ms)] else [])\<rparr>"
  have ms: "ms = []" by (simp add: ms_def nomatch)
  define w3 where "w3 = emit (Info_staging_submit (resubmit_failed ?s) False False) w2"
  define wq where "wq = (case quotaq sv of None \<Rightarrow> w3 | Some q \<Rightarrow> emit Ev_quota_check w3)"
  have clk3: "clock w3 = clock w" by (simp add: w3_def w2_def gp)
  have st: "stage_builder eng ?s builder [] w2 = (Inr builder, w3)"
    unfolding w3_def by (rule stage_builder_plain) (simp add: gk stage)
  have wq: "store wq = store w" "clock wq = clock w"
    by (simp_all add: wq_def w3_def w2_def gp split: option.splits)
  have "\<exists>evs0. trace wq = trace w @ evs0"
    by (cases "quotaq sv") (simp_all add: wq_def w3_def w2_def gp)
  then obtain evs0 where evs0: "trace wq = trace w @ evs0" by blast
  have branch: "blocking_submit (Suc fuel) eng sv builder groups_arg w =
      map_option (\<lambda>(r, tracked, w'). (r, sv1\<lparr>submitted_top_processes := tracked\<rparr>, w'))
        (submit_loop (Suc fuel) eng ?s builder ?pl gs 0 (submitted_top_processes sv1) wq)"
  proof -
    have "blocking_submit (Suc fuel) eng sv builder groups_arg w =
        submit_branch (Suc fuel) eng sv1 builder ?pl gs [] w2"
      using blocking_submit_unfold [OF lbl gs g ms_def w2_def, of "Suc fuel"] by (simp add: ms)
    also have "\<dots> = map_option (\<lambda>(r, tracked, w'). (r, sv1\<lparr>submitted_top_processes := tracked\<rparr>, w'))
        (submit_loop (Suc fuel) eng ?s builder ?pl gs 0 (submitted_top_processes sv1) wq)"
      using quota
      by (simp add: submit_branch_def st wq_def gp(4) clk3 split: option.splits)
    finally show ?thesis .
  qed
  obtain tracked1 wc where c: "cleanup eng ?s (submitted_top_processes sv1) wq = (tracked1, wc)"
    by (cases "cleanup eng ?s (submitted_top_processes sv1) wq")
  from cleanup_props [OF c gp(5)] obtain evs1 where
    c1: "store wc = store wq" "clock wc = clock wq" "trace wc = trace wq @ evs1" by blast
  have sub1: "set tracked1 \<subseteq> set (submitted_top_processes sv)"
    using cleanup_subset [OF c] by (simp add: gp)
  obtain too_full w5 where q: "queue_too_full eng ?s ?pl wc = (too_full, w5)"
    by (cases "queue_too_full eng ?s ?pl wc")
  have nf: "\<not> too_full"
    using free [of wc] q by (simp add: gk c1 wq)
  note qp = queue_too_full_props [OF q]
  obtain evs2 where q2: "trace w5 = trace wc @ evs2"
    using qp(3) by auto
  have loop: "submit_loop (Suc fuel) eng ?s builder ?pl gs 0 (submitted_top_processes sv1) wq
      = Some (try_submit eng ?s builder ?pl gs 0 tracked1 w5)"
    using wait nf by (simp add: submit_loop_Suc c q s1)
  define w6 where "w6 = emit (Info_try_submit 0)
      (emit (Ev_count_running (Suc 0)) (emit (Ev_count_running 0) w5))"
  have w6: "store w6 = store w" "clock w6 = clock w"
    "trace w6 = trace w5 @ [Ev_count_running 0, Ev_count_running 1, Info_try_submit 0]"
    by (simp_all add: w6_def qp c1 wq)
  define w7 where "w7 = emit (Ev_submit builder) (w6\<lparr>store := st'\<rparr>)"
  have w7: "store w7 = st'" "clock w7 = clock w" "trace w7 = trace w6 @ [Ev_submit builder]"
    by (simp_all add: w7_def w6)
  from add_to_groups_ok [of p w7 gs] stored grps w7 obtain w8 where
    a: "add_to_groups gs p w7 = (None, w8)" "nodes (store w8) = nodes st'" "clock w8 = clock w"
       "trace w8 = trace w7 @ map (\<lambda>g. Ev_add_nodes g [pk p]) gs"
       "\<forall>g\<in>set gs. pk p \<in> set (group_members (store w8) g)"
    by auto
  let ?n = "wait_after_submit (settings sv) * seconds_per_min (settings sv)"
  have n: "0 \<le> ?n" using cool by (simp add: seconds_per_min_def)
  define w9 where "w9 = emit (Info_submitted (pk p)) w8"
  define w10 where "w10 = emit (Ev_sleep ?n)
      (w9\<lparr>store := evolve eng (clock w9) (nat ?n) (store w9), clock := clock w9 + ?n\<rparr>)"
  have sl: "sleep eng (wait_after_submit ?s * seconds_per_min ?s) w9 = Inr w10"
    using n by (simp add: sleep_def w10_def s1 gk)
  have ts: "try_submit eng ?s builder ?pl gs 0 tracked1 w5 =
      (Inr (Some p, Some False), tracked1 @ [p], w10)"
    using live sub a(1) sl
    by (simp add: try_submit_def num_running_def Let_def s1 qp c1 wq
          w6_def [symmetric] w7_def [symmetric] w9_def [symmetric])
  let ?evs = "evs0 @ evs1 @ evs2 @ [Ev_count_running 0, Ev_count_running 1, Info_try_submit 0]
      @ [Ev_submit builder] @ map (\<lambda>g. Ev_add_nodes g [pk p]) gs @ [Info_submitted (pk p), Ev_sleep ?n]"
  have r0: "blocking_submit (Suc fuel) eng sv builder groups_arg w
             = Some (Inr (Some p, Some False), sv1\<lparr>submitted_top_processes := tracked1 @ [p]\<rparr>, w10)"
    by (simp add: branch loop ts)
  have r1: "submitted_top_processes (sv1\<lparr>submitted_top_processes := tracked1 @ [p]\<rparr>) = tracked1 @ [p]"
    by simp
  have r3: "trace w10 = trace w @ ?evs"
    by (simp add: w10_def w9_def a(4) w7 w6 q2 c1 evs0)
  have r4: "Ev_submit builder \<in> set ?evs" by simp
  have r5: "\<forall>g\<in>set gs. Ev_add_nodes g [pk p] \<in> set ?evs" by simp
  have r6: "nodes (store w8) = nodes st'" by (rule a(2))
  have r7: "\<forall>g\<in>set gs. pk p \<in> set (group_members (store w8) g)" by (rule a(5))
  have r8: "store w10 = evolve eng (clock w) (nat ?n) (store w8)"
    by (simp add: w10_def w9_def a(3))
  have r9: "clock w10 = clock w + ?n" by (simp add: w10_def w9_def a(3))
  show ?thesis
    by (intro exI [where x = "sv1\<lparr>submitted_top_processes := tracked1 @ [p]\<rparr>"]
          exI [where x = w10] exI [where x = ?evs] exI [where x = tracked1]
          exI [where x = "store w8"] conjI)
       (rule r0 r1 sub1 r3 r4 r5 r6 r7 r8 r9)+
qed

theorem blocking_submit_submits_witness:
  "metadata_label builder_A \<noteq> [] \<and> groups_list (OneGroup ''g'') = Some [''g''] \<and>
   existing_matches static_engine builder_A [''g''] (world_of [] []) = [] \<and>
   \<not> resubmit_failed (settings (supervisor_of (default_settings\<lparr>resubmit_failed := False\<rparr>))) \<and>
   \<not> dry_run (settings (supervisor_of (default_settings\<lparr>resubmit_failed := False\<rparr>))) \<and>
   submit static_engine builder_A (clock (world_of [] [])) (store (world_of [] []))
     = (submitted_A, \<lparr>nodes = [submitted_A], groups = [(''g'', [])]\<rparr>) \<and>
   (\<exists>sv' w' evs.
      blocking_submit 1 static_engine (supervisor_of (default_settings\<lparr>resubmit_failed := False\<rparr>))
        builder_A (OneGroup ''g'') (world_of [] []) = Some (Inr (Some submitted_A, Some False), sv', w')
      \<and> submitted_top_processes sv' = [submitted_A]
      \<and> trace w' = evs \<and> Ev_submit builder_A \<in> set evs \<and> Ev_add_nodes ''g'' [1] \<in> set evs
      \<and> clock w' = 120)"
proof -
  let ?sv = "supervisor_of (default_settings\<lparr>resubmit_failed := False\<rparr>)"
  have h1: "metadata_label builder_A \<noteq> []" by (simp add: builder_A_def)
  have h2: "groups_list (OneGroup ''g'') = Some [''g'']" by simp
  note h3 = matches_world_empty
  have s: "\<not> resubmit_failed (settings ?sv)" "\<not> dry_run (settings ?sv)"
    "quotaq ?sv = None" "max_wait_for_submit (settings ?sv) = 120"
    "wait_after_submit (settings ?sv) = 2" "seconds_per_min (settings ?sv) = 60"
    "submitted_top_processes ?sv = []"
    by (simp_all add: supervisor_of_def default_settings_def seconds_per_min_def)
  have sub: "submit static_engine builder_A (clock (world_of [] [])) (store (world_of [] []))
     = (submitted_A, \<lparr>nodes = [submitted_A], groups = [(''g'', [])]\<rparr>)"
    by (simp add: static_engine_def builder_A_def world_of_def submitted_A_def Let_def)
  have c: "clock (world_of [] []) = 0" "trace (world_of [] []) = []" "pk submitted_A = 1"
    by (simp_all add: world_of_def submitted_A_def)
  from blocking_submit_submits [where builder = builder_A and groups_arg = "OneGroup ''g''"
      and gs = "[''g'']" and eng = static_engine and w = "world_of [] []" and sv = ?sv
      and p = submitted_A and st' = "\<lparr>nodes = [submitted_A], groups = [(''g'', [])]\<rparr>"
      and fuel = 0, OF h1 h2 h3 _ _ _ _ empty_world_free sub]
    s c
  have "\<exists>sv' w' evs.
      blocking_submit 1 static_engine ?sv builder_A (OneGroup ''g'') (world_of [] [])
        = Some (Inr (Some submitted_A, Some False), sv', w')
      \<and> submitted_top_processes sv' = [submitted_A]
      \<and> trace w' = evs \<and> Ev_submit builder_A \<in> set evs \<and> Ev_add_nodes ''g'' [1] \<in> set evs
      \<and> clock w' = 120"
    by auto
  with h1 h2 h3 s(1,2) sub show ?thesis by blast
qed
subsection \<open>The quota check under the default settings\<close>

text \<open>
  Claim C7. The claim says that every call that reaches the submission branch with a
  quota querier that reports too little free space fails with an IOError before the
  waiting line. The code does so only when staging the builder gets through
  (\<open>blocking_submit_quota_abort\<close>). Under the default settings (both retry flags set) and
  with no match at all, the call is in the submission branch, the quota querier has no
  space, and the exception is the IndexError of the staging step: the quota querier is
  never asked, and no IOError is raised.
\<close>

theorem blocking_submit_index_error_before_quota_check:
  "blocking_submit 5 static_engine ((supervisor_of default_settings)\<lparr>quotaq := Some no_space_left\<rparr>)
     builder_A (OneGroup ''g'') (world_of [] []) =
   Some (Inl IndexError, (supervisor_of default_settings)\<lparr>quotaq := Some no_space_left\<rparr>,
         (world_of [] [])\<lparr>trace := [Ev_query ''g'']\<rparr>)"
  by (simp add: blocking_submit_def tmp_guard_against_delete_if_stalling_def
        supervisor_of_def default_settings_def builder_A_def world_of_def
        static_engine_def query_processes_def emit_def group_members_def
        submit_branch_def stage_builder_def)
section \<open>Properties of the process classifier\<close>

lemma set_insert_members: "set (insert_members ks ms) = set ks \<union> set ms"
proof -
  have "set (fold (\<lambda>k acc. if k \<in> set acc then acc else acc @ [k]) ks ms) = set ks \<union> set ms"
    by (induction ks arbitrary: ms) auto
  then show ?thesis by (simp add: insert_members_def)
qed

lemma update_fresh_last:
  "map_of gs g = None \<Longrightarrow> AList.update g v (gs @ [(g, u)]) = gs @ [(g, v)]"
  by (induction gs) (auto split: if_splits)

lemma map_of_fresh_last:
  "map_of gs g = None \<Longrightarrow> map_of (gs @ [(g, u)]) g = Some u"
  by (induction gs) (auto split: if_splits)

lemma fresh_filter_ne: "map_of gs g = None \<Longrightarrow> filter (\<lambda>p. fst p \<noteq> g) gs = gs"
  by (induction gs) (auto split: if_splits)

lemma fresh_filter_eq: "map_of gs g = None \<Longrightarrow> filter (\<lambda>p. fst p = g) gs = []"
  by (induction gs) (auto split: if_splits)

lemma delete_tmp_group:
  assumes "groups (store w) = gs @ [(g, u)]" and "map_of gs g = None"
  shows "delete_groups [g] False True w =
     w\<lparr>store := (store w)\<lparr>groups := gs\<rparr>, trace := trace w @ [Ev_group_deleted g]\<rparr>"
  using assms
  by (simp add: delete_groups_def fresh_filter_ne fresh_filter_eq Let_def case_prod_unfold)

lemma group_for_classification_cases:
  assumes "group_for_classification names clf w = Some (r, w1)"
  obtains
    (populated) tmp B where "r = Inr tmp" "map_of (groups (store w)) tmp = None"
      "unclassified_processes clf = Some B" "pk ` set B \<subseteq> pk ` set (nodes (store w))"
      "w1 = w\<lparr>store := (store w)\<lparr>groups := groups (store w) @
                         [(tmp, insert_members (map pk B) [])]\<rparr>,
               trace := trace w @ [Ev_group_created tmp, Ev_add_nodes tmp (map pk B)]\<rparr>"
      "tmp \<in> tmp_group_label ` set names"
  | (failed) tmp e where "r = Inl e" "map_of (groups (store w)) tmp = None"
      "unclassified_processes clf = None \<or>
       (\<exists>B. unclassified_processes clf = Some B \<and> \<not> pk ` set B \<subseteq> pk ` set (nodes (store w)))"
      "w1 = w\<lparr>store := (store w)\<lparr>groups := groups (store w) @ [(tmp, [])]\<rparr>,
               trace := trace w @ [Ev_group_created tmp]\<rparr>"
      "tmp \<in> tmp_group_label ` set names"
  using assms
proof (induction names)
  case Nil
  then show ?case by simp
next
  case (Cons name names)
  let ?g = "tmp_group_label name"
  show ?case
  proof (cases "map_of (groups (store w)) ?g")
    case (Some ms)
    with Cons.prems(3) have rec: "group_for_classification names clf w = Some (r, w1)" by simp
    show ?thesis
    proof (rule Cons.IH [OF _ _ rec])
      fix tmp B
      assume "r = Inr tmp" "map_of (groups (store w)) tmp = None"
        "unclassified_processes clf = Some B" "pk ` set B \<subseteq> pk ` set (nodes (store w))"
        "w1 = w\<lparr>store := (store w)\<lparr>groups := groups (store w) @
                         [(tmp, insert_members (map pk B) [])]\<rparr>,
               trace := trace w @ [Ev_group_created tmp, Ev_add_nodes tmp (map pk B)]\<rparr>"
        "tmp \<in> tmp_group_label ` set names"
      then show thesis using Cons.prems(1) [of tmp B] by simp
    next
      fix tmp e
      assume "r = Inl e" "map_of (groups (store w)) tmp = None"
        "unclassified_processes clf = None \<or>
         (\<exists>B. unclassified_processes clf = Some B \<and> \<not> pk ` set B \<subseteq> pk ` set (nodes (store w)))"
        "w1 = w\<lparr>store := (store w)\<lparr>groups := groups (store w) @ [(tmp, [])]\<rparr>,
               trace := trace w @ [Ev_group_created tmp]\<rparr>"
        "tmp \<in> tmp_group_label ` set names"
      then show thesis using Cons.prems(2) [of e tmp] by simp
    qed
  next
    case None
    let ?w1 = "store_group ?g w"
    have w1: "?w1 = w\<lparr>store := (store w)\<lparr>groups := groups (store w) @ [(?g, [])]\<rparr>,
               trace := trace w @ [Ev_group_created ?g]\<rparr>"
      by (simp add: store_group_def emit_def)
    show ?thesis
    proof (cases "unclassified_processes clf")
      case n: None
      with None Cons.prems(3) have "r = Inl TypeError" "w1 = ?w1" by (simp_all add: Let_def)
      with Cons.prems(2) [of TypeError ?g] None n w1 show ?thesis by simp
    next
      case (Some B)
      show ?thesis
      proof (cases "pk ` set B \<subseteq> pk ` set (nodes (store w))")
        case False
        then have "add_nodes ?g B ?w1 = Inl ValueError"
          by (auto simp: add_nodes_def w1 list_ex_iff)
        with None Some Cons.prems(3) have "r = Inl ValueError" "w1 = ?w1" by (simp_all add: Let_def)
        with Cons.prems(2) [of ValueError ?g] None Some False w1 show ?thesis by simp
      next
        case True
        then have "add_nodes ?g B ?w1 = Inr (w\<lparr>store := (store w)\<lparr>groups := groups (store w) @
                         [(?g, insert_members (map pk B) [])]\<rparr>,
               trace := trace w @ [Ev_group_created ?g, Ev_add_nodes ?g (map pk B)]\<rparr>)"
          using None
          by (auto simp: add_nodes_def w1 list_ex_iff map_of_fresh_last update_fresh_last emit_def
                simp del: map_of_append)
        with None Some Cons.prems(3) have "r = Inr ?g"
          "w1 = w\<lparr>store := (store w)\<lparr>groups := groups (store w) @
                         [(?g, insert_members (map pk B) [])]\<rparr>,
               trace := trace w @ [Ev_group_created ?g, Ev_add_nodes ?g (map pk B)]\<rparr>"
          by (simp_all add: Let_def)
        with Cons.prems(1) [of ?g B] None Some True show ?thesis by simp
      qed
    qed
  qed
qed

lemma get_processes_tmp:
  assumes "groups (store w) = gs @ [(g, ms)]" and "map_of gs g = None"
  shows "get_processes eng g state w = members_in_state (set ms) state (nodes (store w))"
  using assms
  by (simp add: get_processes_def query_processes_def matches_filters_def truthy_def
        group_members_def members_in_state_def map_of_fresh_last del: map_of_append)

lemma other_states: "remove1 finished (get_process_states None) =
    [''created'', ''waiting'', ''running'', ''excepted'', ''killed'']"
  by (simp add: finished_def get_process_states_def states_subset_def)

lemma classify_by_state_cases:
  assumes "classify_by_state eng names clf w = Some (r, clf', w')"
  obtains
    (classified) tmp B where "r = None" "map_of (groups (store w)) tmp = None"
      "unclassified_processes clf = Some B" "pk ` set B \<subseteq> pk ` set (nodes (store w))"
      "clf' = clf\<lparr>classified_by_state := classification (pk ` set B) (nodes (store w))\<rparr>"
      "w' = w\<lparr>trace := trace w @ [Ev_group_created tmp, Ev_add_nodes tmp (map pk B)] @
                 replicate 6 (Ev_query tmp) @ [Ev_group_deleted tmp]\<rparr>"
      "tmp \<in> tmp_group_label ` set names"
  | (failed) tmp e where "r = Some e" "map_of (groups (store w)) tmp = None"
      "unclassified_processes clf = None \<or>
       (\<exists>B. unclassified_processes clf = Some B \<and> \<not> pk ` set B \<subseteq> pk ` set (nodes (store w)))"
      "clf' = clf"
      "w' = w\<lparr>store := (store w)\<lparr>groups := groups (store w) @ [(tmp, [])]\<rparr>,
               trace := trace w @ [Ev_group_created tmp]\<rparr>"
      "tmp \<in> tmp_group_label ` set names"
proof -
  from assms obtain g w1 where gf: "group_for_classification names clf w = Some (g, w1)"
    by (auto simp: classify_by_state_def split: option.splits)
  from gf show ?thesis
  proof (cases rule: group_for_classification_cases)
    case (failed tmp e)
    with assms gf have "r = Some e" "clf' = clf" "w' = w1"
      by (simp_all add: classify_by_state_def)
    with failed show ?thesis using that(2) [of e tmp] by simp
  next
    case (populated tmp B)
    let ?ms = "insert_members (map pk B) []"
    have grp: "groups (store w1) = groups (store w) @ [(tmp, ?ms)]"
      and nds: "nodes (store w1) = nodes (store w)"
      by (simp_all add: populated(5))
    have q: "get_processes eng tmp state w1 = members_in_state (pk ` set B) state (nodes (store w))" for state
      using get_processes_tmp [OF grp populated(2), of eng state]
      by (simp add: set_insert_members nds)
    define w2 where "w2 = w1\<lparr>trace := trace w1 @ replicate 6 (Ev_query tmp)\<rparr>"
    have grp2: "groups (store w2) = groups (store w) @ [(tmp, ?ms)]"
      by (simp add: w2_def grp)
    have del: "delete_groups [tmp] False True w2 =
        w\<lparr>trace := trace w @ [Ev_group_created tmp, Ev_add_nodes tmp (map pk B)] @
                 replicate 6 (Ev_query tmp) @ [Ev_group_deleted tmp]\<rparr>"
      by (simp add: delete_tmp_group [OF grp2 populated(2)]) (simp add: w2_def populated(5))
    have map6: "map (\<lambda>state. Ev_query tmp)
        ([''created'', ''waiting'', ''running'', ''excepted'', ''killed''] @ [finished])
        = replicate 6 (Ev_query tmp)"
      by (simp add: numeral_eq_Suc)
    have "classify_by_state eng names clf w =
       Some (None, clf\<lparr>classified_by_state := classification (pk ` set B) (nodes (store w))\<rparr>,
             delete_groups [tmp] False True w2)"
      unfolding classify_by_state_def gf populated(1) w2_def
      by (simp add: other_states q map6 classification_def Let_def)
         (simp add: finished_def numeral_eq_Suc)
    with assms del have "r = None"
      "clf' = clf\<lparr>classified_by_state := classification (pk ` set B) (nodes (store w))\<rparr>"
      "w' = w\<lparr>trace := trace w @ [Ev_group_created tmp, Ev_add_nodes tmp (map pk B)] @
                 replicate 6 (Ev_query tmp) @ [Ev_group_deleted tmp]\<rparr>"
      by simp_all
    with populated show ?thesis using that(1) [of tmp B] by simp
  qed
qed

lemma update_mset:
  "distinct (map fst d) \<Longrightarrow>
   mset (concat (map snd (AList.update k v d))) + mset (case map_of d k of None \<Rightarrow> [] | Some l \<Rightarrow> l)
     = mset (concat (map snd d)) + mset v"
proof (induction d)
  case Nil
  then show ?case by simp
next
  case (Cons a d)
  then have "fst a \<noteq> k \<Longrightarrow> ?case" by (cases a) simp
  moreover have "fst a = k \<Longrightarrow> ?case"
  proof -
    assume k: "fst a = k"
    with Cons.prems have "map_of d k = None"
      by (cases a) (auto simp: map_of_eq_None_iff)
    with k show ?thesis by (cases a) simp
  qed
  ultimately show ?case by blast
qed

lemma by_exit_status_mset:
  "distinct (map fst d) \<Longrightarrow>
   mset (concat (map snd (by_exit_status ps d))) = mset (concat (map snd d)) + mset ps"
proof (induction ps arbitrary: d)
  case Nil
  then show ?case by simp
next
  case (Cons p ps)
  let ?es = "exit_status p"
  define d1 where "d1 = (if (case map_of d ?es of None \<Rightarrow> True | Some l \<Rightarrow> l = [])
                then AList.update ?es [] d else d)"
  define cur where "cur = (case map_of d1 ?es of None \<Rightarrow> [] | Some l \<Rightarrow> l)"
  define d2 where "d2 = AList.update ?es (cur @ [p]) d1"
  have dist1: "distinct (map fst d1)"
    using Cons.prems by (simp add: d1_def distinct_update)
  have dist2: "distinct (map fst d2)"
    using dist1 by (simp add: d2_def distinct_update)
  have m1: "mset (concat (map snd d1)) = mset (concat (map snd d))"
    using update_mset [OF Cons.prems, of ?es "[]"]
    by (auto simp: d1_def split: option.splits)
  have m2: "mset (concat (map snd d2)) + mset cur = mset (concat (map snd d1)) + mset (cur @ [p])"
    using update_mset [OF dist1, of ?es "cur @ [p]"] by (simp add: d2_def cur_def)
  then have m2': "mset (concat (map snd d2)) = mset (concat (map snd d1)) + {#p#}"
    by simp
  have "by_exit_status (p # ps) d = by_exit_status ps d2"
    by (simp add: d1_def d2_def cur_def Let_def)
  then show ?case
    by (simp add: Cons.IH [OF dist2] m2' m1)
qed

lemma sum_lengths: "sum_list (map (\<lambda>(k, v). length v) d) = length (concat (map snd d))"
  by (induction d) auto

lemma states_partition:
  "mset (members_in_state S ''created'' ps) + mset (members_in_state S ''waiting'' ps) +
   mset (members_in_state S ''running'' ps) + mset (members_in_state S ''excepted'' ps) +
   mset (members_in_state S ''killed'' ps) + mset (members_in_state S ''finished'' ps)
     = mset (filter (\<lambda>p. pk p \<in> S) ps)"
proof (induction ps)
  case Nil
  show ?case by (simp add: members_in_state_def)
next
  case (Cons p ps)
  then show ?case
    by (cases "process_state p") (simp_all add: members_in_state_def)
qed

lemma classification_mset:
  "mset (concat (map (\<lambda>(k, b). bucket_processes b) (classification S ps)))
     = mset (filter (\<lambda>p. pk p \<in> S) ps)"
  using states_partition [of S ps]
  by (simp add: classification_def by_exit_status_mset ac_simps)

lemma classification_count:
  "count_states (classification S ps) (get_process_states None) 0 =
     Inr (length (concat (map (\<lambda>(k, b). bucket_processes b) (classification S ps))))"
proof (cases "by_exit_status (members_in_state S ''finished'' ps) [] = []")
  case True
  then show ?thesis
    by (simp add: classification_def get_process_states_def states_subset_def finished_def)
next
  case False
  then show ?thesis
    by (simp add: classification_def get_process_states_def states_subset_def finished_def
          sum_lengths)
qed

lemma length_filter_pks:
  assumes "distinct (map pk xs)" and "S \<subseteq> pk ` set xs"
  shows "length (filter (\<lambda>p. pk p \<in> S) xs) = card S"
proof -
  have inj: "inj_on pk (set xs)" and d: "distinct xs"
    using assms(1) by (simp_all add: distinct_map)
  have "distinct (filter (\<lambda>p. pk p \<in> S) xs)"
    using d by simp
  from distinct_card [OF this]
  have "length (filter (\<lambda>p. pk p \<in> S) xs) = card (set (filter (\<lambda>p. pk p \<in> S) xs))"
    by (rule sym)
  also have "pk ` set (filter (\<lambda>p. pk p \<in> S) xs) = S"
    using assms(2) by auto
  then have "card (set (filter (\<lambda>p. pk p \<in> S) xs)) = card S"
    using card_image [of pk "set (filter (\<lambda>p. pk p \<in> S) xs)"] inj
    by (metis (no_types, lifting) filter_is_subset inj_on_subset)
  finally show ?thesis .
qed

lemma group_for_classification_returns:
  assumes "\<exists>name\<in>set names. map_of (groups (store w)) (tmp_group_label name) = None"
  shows "\<exists>r w1. group_for_classification names clf w = Some (r, w1)"
  using assms
proof (induction names)
  case Nil
  then show ?case by simp
next
  case (Cons name names)
  show ?case
  proof (cases "map_of (groups (store w)) (tmp_group_label name)")
    case None
    then show ?thesis
      by (simp add: Let_def split: option.splits sum.splits)
  next
    case (Some ms)
    with Cons.prems have "\<exists>name\<in>set names. map_of (groups (store w)) (tmp_group_label name) = None"
      by auto
    from Cons.IH [OF this] Some show ?thesis by simp
  qed
qed

lemma classify_by_state_returns:
  assumes "\<exists>name\<in>set names. map_of (groups (store w)) (tmp_group_label name) = None"
  shows "\<exists>r clf' w'. classify_by_state eng names clf w = Some (r, clf', w')"
proof -
  from group_for_classification_returns [OF assms] obtain r w1 where
    "group_for_classification names clf w = Some (r, w1)" by blast
  then show ?thesis
    by (cases r) (simp_all add: classify_by_state_def Let_def)
qed

lemma init_purges:
  assumes "label_like eng (TMP_GROUP_LABEL_PREFIX @ ''%'') g"
  shows "map_of (groups (store (snd (ProcessClassifier_init eng processes w)))) g = None"
proof -
  let ?tg = "filter (\<lambda>(l, ms). label_like eng (TMP_GROUP_LABEL_PREFIX @ ''%'') l) (groups (store w))"
  show ?thesis
  proof (cases "?tg = []")
    case True
    then have "g \<notin> fst ` set (groups (store w))"
      using assms by (auto simp: filter_empty_conv)
    then show ?thesis
      using True by (simp add: ProcessClassifier_init_def map_of_eq_None_iff)
  next
    case False
    have "g \<notin> fst ` set (groups (store (delete_groups (map fst ?tg) False False
                (emit Info_found_temporary_groups w))))"
      using assms by (auto simp: delete_groups_def Let_def image_iff)
    then show ?thesis
      using False by (simp add: ProcessClassifier_init_def map_of_eq_None_iff Let_def)
  qed
qed

lemmas classifier_eval =
  classify_by_state_def tmp_group_label_def example_name_def classifier_of_def
  TMP_GROUP_LABEL_PREFIX_def store_group_def add_nodes_def insert_members_def emit_def
  get_processes_def query_processes_def matches_filters_def truthy_def group_members_def
  get_process_states_def states_subset_def finished_def delete_groups_def
  world_of_def node_A_ok_def node_B_running_def classified_A_def classification_trace_def
  numeral_eq_Suc Let_def

lemma duplicate_run:
  "classify_by_state static_engine [example_name] (classifier_of (Some [node_A_ok, node_A_ok]))
     (world_of [node_A_ok] [1]) =
   Some (None,
         (classifier_of (Some [node_A_ok, node_A_ok]))\<lparr>classified_by_state := classified_A\<rparr>,
         (world_of [node_A_ok] [1])\<lparr>trace := classification_trace [1, 1]\<rparr>)"
  by (simp add: classifier_eval)

lemma single_run:
  "classify_by_state static_engine [example_name] (classifier_of (Some [node_A_ok]))
     (world_of [node_A_ok] [1]) =
   Some (None,
         (classifier_of (Some [node_A_ok]))\<lparr>classified_by_state := classified_A\<rparr>,
         (world_of [node_A_ok] [1])\<lparr>trace := classification_trace [1]\<rparr>)"
  by (simp add: classifier_eval)

lemma repeated_run:
  "classify_by_state static_engine [example_name]
     ((classifier_of (Some [node_A_ok]))\<lparr>classified_by_state := classified_A\<rparr>)
     ((world_of [node_A_ok] [1])\<lparr>trace := classification_trace [1]\<rparr>) =
   Some (None,
         (classifier_of (Some [node_A_ok]))\<lparr>classified_by_state := classified_A\<rparr>,
         (world_of [node_A_ok] [1])\<lparr>trace := classification_trace [1] @ classification_trace [1]\<rparr>)"
  by (simp add: classifier_eval)

lemma unpopulated_run:
  "classify_by_state static_engine [example_name] (classifier_of None) (world_of [] []) =
   Some (Some TypeError, classifier_of None,
         (world_of [] [])\<lparr>store := \<lparr>nodes = [],
              groups = [(''g'', []), (tmp_group_label example_name, [])]\<rparr>,
            trace := [Ev_group_created (tmp_group_label example_name)]\<rparr>)"
  by (simp add: classifier_eval)

lemma count_classified_A:
  "count ((classifier_of (Some ps))\<lparr>classified_by_state := classified_A\<rparr>) None = Inr 1"
  by (simp add: count_def truthy_def classified_A_def get_process_states_def states_subset_def
        finished_def classifier_of_def)

lemma example_label_like:
  "label_like static_engine (TMP_GROUP_LABEL_PREFIX @ ''%'') (tmp_group_label example_name)"
  by (simp add: static_engine_def TMP_GROUP_LABEL_PREFIX_def tmp_group_label_def example_name_def)

subsection \<open>The classification is a partition\<close>

text \<open>
  Claim C4, as amended. Let the batch hold stored process records, in a store whose pks
  are unique and that does not change during the call, and let one of the names tried
  for the temporary group be free. Then \<^verbatim>\<open>classify_by_state\<close> returns, and the buckets
  (finished expanded over its exit statuses) hold each stored record whose pk is in the
  batch exactly once; \<^verbatim>\<open>count()\<close> over all states is the number of distinct records of
  the batch. When no record is listed twice this is \<^verbatim>\<open>len(B)\<close>, and when the batch
  holds the records as the store has them the buckets are a permutation of the batch.
\<close>

theorem classify_by_state_partition:
  assumes B: "unclassified_processes clf = Some B"
      and stored: "pk ` set B \<subseteq> pk ` set (nodes (store w))"
      and pks: "distinct (map pk (nodes (store w)))"
      and fresh: "\<exists>name\<in>set names. map_of (groups (store w)) (tmp_group_label name) = None"
  shows "\<exists>clf' w'. classify_by_state eng names clf w = Some (None, clf', w')
      \<and> mset (classified_processes clf') = mset (filter (\<lambda>p. pk p \<in> pk ` set B) (nodes (store w)))
      \<and> count clf' None = Inr (card (pk ` set B))
      \<and> (distinct (map pk B) \<longrightarrow> count clf' None = Inr (length B))
      \<and> (distinct B \<and> set B \<subseteq> set (nodes (store w)) \<longrightarrow> mset (classified_processes clf') = mset B)"
proof -
  from classify_by_state_returns [OF fresh] obtain r clf' w' where
    run: "classify_by_state eng names clf w = Some (r, clf', w')" by blast
  from run show ?thesis
  proof (cases rule: classify_by_state_cases)
    case (failed tmp e)
    with B stored show ?thesis by simp
  next
    case (classified tmp B')
    with B have B': "B' = B" by simp
    let ?S = "pk ` set B"
    have cp: "classified_processes clf' =
        concat (map (\<lambda>(k, b). bucket_processes b) (classification ?S (nodes (store w))))"
      by (simp add: classified_processes_def classified(5) B')
    have m: "mset (classified_processes clf') = mset (filter (\<lambda>p. pk p \<in> ?S) (nodes (store w)))"
      by (simp add: cp classification_mset)
    have "length (classified_processes clf') = length (filter (\<lambda>p. pk p \<in> ?S) (nodes (store w)))"
      using m by (metis size_mset)
    then have len: "length (classified_processes clf') = card ?S"
      by (simp add: length_filter_pks [OF pks stored])
    have len': "length (concat (map (\<lambda>(k, b). bucket_processes b)
        (classification ?S (nodes (store w))))) = card ?S"
      using len by (simp only: cp)
    have c: "count clf' None = Inr (card ?S)"
      using classification_count [of ?S "nodes (store w)"]
      by (simp add: count_def truthy_def classified(5) B' len')
    have c2: "distinct (map pk B) \<longrightarrow> count clf' None = Inr (length B)"
    proof
      assume "distinct (map pk B)"
      then have "card ?S = length B"
        using distinct_card [of "map pk B"] by simp
      with c show "count clf' None = Inr (length B)" by simp
    qed
    have m2: "distinct B \<and> set B \<subseteq> set (nodes (store w)) \<longrightarrow> mset (classified_processes clf') = mset B"
    proof
      assume a: "distinct B \<and> set B \<subseteq> set (nodes (store w))"
      have inj: "inj_on pk (set (nodes (store w)))" and d: "distinct (nodes (store w))"
        using pks by (simp_all add: distinct_map)
      have "set (filter (\<lambda>p. pk p \<in> ?S) (nodes (store w))) = set B"
        using a inj by (auto dest: inj_onD)
      moreover have "distinct (filter (\<lambda>p. pk p \<in> ?S) (nodes (store w)))"
        using d by simp
      ultimately have "mset (filter (\<lambda>p. pk p \<in> ?S) (nodes (store w))) = mset B"
        using a set_eq_iff_mset_eq_distinct [of "filter (\<lambda>p. pk p \<in> ?S) (nodes (store w))" B]
        by blast
      with m show "mset (classified_processes clf') = mset B" by simp
    qed
    from run classified(1) m c c2 m2 show ?thesis by blast
  qed
qed

text \<open>
  The claim as stated fails on a batch that lists a record twice: the temporary group
  holds it once, so does its bucket, and \<^verbatim>\<open>count()\<close> is 1 where \<^verbatim>\<open>len(B)\<close> is 2.
\<close>

theorem count_of_repeated_record:
  "classify_by_state static_engine [example_name] (classifier_of (Some [node_A_ok, node_A_ok]))
     (world_of [node_A_ok] [1]) =
   Some (None,
         (classifier_of (Some [node_A_ok, node_A_ok]))\<lparr>classified_by_state := classified_A\<rparr>,
         (world_of [node_A_ok] [1])\<lparr>trace := classification_trace [1, 1]\<rparr>) \<and>
   count ((classifier_of (Some [node_A_ok, node_A_ok]))\<lparr>classified_by_state := classified_A\<rparr>) None
     = Inr 1 \<and>
   length [node_A_ok, node_A_ok] = 2"
  using duplicate_run count_classified_A by simp

theorem classify_by_state_partition_witness:
  "unclassified_processes (classifier_of (Some [node_A_ok, node_B_running]))
     = Some [node_A_ok, node_B_running] \<and>
   pk ` set [node_A_ok, node_B_running]
     \<subseteq> pk ` set (nodes (store (world_of [node_A_ok, node_B_running] [1]))) \<and>
   distinct (map pk (nodes (store (world_of [node_A_ok, node_B_running] [1])))) \<and>
   map_of (groups (store (world_of [node_A_ok, node_B_running] [1]))) (tmp_group_label example_name)
     = None \<and>
   distinct (map pk [node_A_ok, node_B_running]) \<and>
   (\<exists>clf' w'.
      classify_by_state static_engine [example_name]
        (classifier_of (Some [node_A_ok, node_B_running]))
        (world_of [node_A_ok, node_B_running] [1]) = Some (None, clf', w')
      \<and> mset (classified_processes clf') = mset [node_A_ok, node_B_running]
      \<and> count clf' None = Inr 2)"
proof -
  let ?B = "[node_A_ok, node_B_running]"
  let ?w = "world_of ?B [1]"
  have h1: "unclassified_processes (classifier_of (Some ?B)) = Some ?B"
    by (simp add: classifier_of_def)
  have h2: "pk ` set ?B \<subseteq> pk ` set (nodes (store ?w))" by (simp add: world_of_def)
  have h3: "distinct (map pk (nodes (store ?w)))"
    by (simp add: world_of_def node_A_ok_def node_B_running_def)
  have h4: "map_of (groups (store ?w)) (tmp_group_label example_name) = None"
    by (simp add: world_of_def tmp_group_label_def TMP_GROUP_LABEL_PREFIX_def)
  have h4': "\<exists>name\<in>set [example_name]. map_of (groups (store ?w)) (tmp_group_label name) = None"
    using h4 by simp
  have h5: "distinct (map pk ?B)" by (simp add: node_A_ok_def node_B_running_def)
  have h6: "distinct ?B \<and> set ?B \<subseteq> set (nodes (store ?w))"
    by (simp add: world_of_def node_A_ok_def node_B_running_def)
  from classify_by_state_partition [OF h1 h2 h3 h4', of static_engine] h5 h6
  have "\<exists>clf' w'.
      classify_by_state static_engine [example_name] (classifier_of (Some ?B)) ?w
        = Some (None, clf', w')
      \<and> mset (classified_processes clf') = mset ?B
      \<and> count clf' None = Inr 2"
    by auto
  with h1 h2 h3 h4 h5 show ?thesis by blast
qed
subsection \<open>The temporary group\<close>

text \<open>
  Claim C8, as amended. Every run of \<^verbatim>\<open>classify_by_state\<close> that ends has stored a
  temporary group under a label that was free. A run that classifies has populated the
  group with the batch, queried it six times and deleted it: the store is as before. A
  run that fails to populate the group (the batch is \<^verbatim>\<open>None\<close> or holds an unstored node)
  raises and leaves the empty group in the store: the code has no handler that would
  delete it. The group goes when the next \<^verbatim>\<open>ProcessClassifier\<close> is constructed, provided
  the store's LIKE matches its label against the prefix pattern.
\<close>

theorem temporary_group_cleanup:
  assumes "classify_by_state eng names clf w = Some (r, clf', w')"
  shows "\<exists>tmp\<in>tmp_group_label ` set names. map_of (groups (store w)) tmp = None \<and>
     (case r of
        None \<Rightarrow>
          store w' = store w \<and>
          (\<exists>B. unclassified_processes clf = Some B \<and>
             trace w' = trace w @ [Ev_group_created tmp, Ev_add_nodes tmp (map pk B)] @
                          replicate 6 (Ev_query tmp) @ [Ev_group_deleted tmp])
      | Some e \<Rightarrow>
          groups (store w') = groups (store w) @ [(tmp, [])] \<and>
          trace w' = trace w @ [Ev_group_created tmp] \<and>
          (label_like eng (TMP_GROUP_LABEL_PREFIX @ ''%'') tmp \<longrightarrow>
             map_of (groups (store (snd (ProcessClassifier_init eng processes w')))) tmp = None))"
  using assms
proof (cases rule: classify_by_state_cases)
  case (classified tmp B)
  then show ?thesis by (intro bexI [where x = tmp]) simp_all
next
  case (failed tmp e)
  then show ?thesis
    by (intro bexI [where x = tmp]) (simp_all add: init_purges)
qed

text \<open>
  The claim as stated fails: a classifier constructed without processes raises the
  TypeError and its temporary group survives the failed run.
\<close>

theorem temporary_group_left_behind:
  "classify_by_state static_engine [example_name] (classifier_of None) (world_of [] []) =
   Some (Some TypeError, classifier_of None,
         (world_of [] [])\<lparr>store := \<lparr>nodes = [],
              groups = [(''g'', []), (tmp_group_label example_name, [])]\<rparr>,
            trace := [Ev_group_created (tmp_group_label example_name)]\<rparr>) \<and>
   map_of (groups (store ((world_of [] [])\<lparr>store := \<lparr>nodes = [],
              groups = [(''g'', []), (tmp_group_label example_name, [])]\<rparr>,
            trace := [Ev_group_created (tmp_group_label example_name)]\<rparr>)))
     (tmp_group_label example_name) = Some []"
  using unpopulated_run
  by (simp add: tmp_group_label_def TMP_GROUP_LABEL_PREFIX_def)

theorem temporary_group_cleanup_witness:
  "classify_by_state static_engine [example_name] (classifier_of None) (world_of [] []) =
   Some (Some TypeError, classifier_of None,
         (world_of [] [])\<lparr>store := \<lparr>nodes = [],
              groups = [(''g'', []), (tmp_group_label example_name, [])]\<rparr>,
            trace := [Ev_group_created (tmp_group_label example_name)]\<rparr>) \<and>
   label_like static_engine (TMP_GROUP_LABEL_PREFIX @ ''%'') (tmp_group_label example_name) \<and>
   map_of (groups (store (world_of [] []))) (tmp_group_label example_name) = None \<and>
   map_of (groups (store (snd (ProcessClassifier_init static_engine None
       ((world_of [] [])\<lparr>store := \<lparr>nodes = [],
              groups = [(''g'', []), (tmp_group_label example_name, [])]\<rparr>,
            trace := [Ev_group_created (tmp_group_label example_name)]\<rparr>)))))
     (tmp_group_label example_name) = None"
  using temporary_group_cleanup [OF unpopulated_run, of None] unpopulated_run example_label_like
  by simp
subsection \<open>Classifying twice\<close>

text \<open>
  Claim C9. Two runs of \<^verbatim>\<open>classify_by_state\<close> on the same classifier, the second in a
  world whose process records are those of the first (the world the first run leaves is
  one: a run does not touch the records), end with the same \<^verbatim>\<open>classified_by_state\<close>,
  whatever names the temporary groups get.
\<close>

theorem classify_by_state_idempotent:
  assumes first: "classify_by_state eng names1 clf w = Some (r1, clf1, w1)"
      and same: "nodes (store u) = nodes (store w)"
      and second: "classify_by_state eng names2 clf1 u = Some (r2, clf2, w2)"
  shows "classified_by_state clf2 = classified_by_state clf1 \<and> clf2 = clf1 \<and>
         nodes (store w1) = nodes (store w)"
  using first
proof (cases rule: classify_by_state_cases)
  case c1: (classified tmp B)
  then have u: "unclassified_processes clf1 = Some B" by simp
  from second show ?thesis
  proof (cases rule: classify_by_state_cases)
    case (classified tmp' B')
    with u c1 same show ?thesis by simp
  next
    case (failed tmp' e)
    with u c1 same show ?thesis by simp
  qed
next
  case f1: (failed tmp e)
  from second show ?thesis
  proof (cases rule: classify_by_state_cases)
    case (classified tmp' B')
    with f1 same show ?thesis by auto
  next
    case (failed tmp' e')
    with f1 show ?thesis by simp
  qed
qed

theorem classify_by_state_idempotent_witness:
  "classify_by_state static_engine [example_name] (classifier_of (Some [node_A_ok]))
     (world_of [node_A_ok] [1]) =
   Some (None,
         (classifier_of (Some [node_A_ok]))\<lparr>classified_by_state := classified_A\<rparr>,
         (world_of [node_A_ok] [1])\<lparr>trace := classification_trace [1]\<rparr>) \<and>
   nodes (store ((world_of [node_A_ok] [1])\<lparr>trace := classification_trace [1]\<rparr>))
     = nodes (store (world_of [node_A_ok] [1])) \<and>
   classify_by_state static_engine [example_name]
     ((classifier_of (Some [node_A_ok]))\<lparr>classified_by_state := classified_A\<rparr>)
     ((world_of [node_A_ok] [1])\<lparr>trace := classification_trace [1]\<rparr>) =
   Some (None,
         (classifier_of (Some [node_A_ok]))\<lparr>classified_by_state := classified_A\<rparr>,
         (world_of [node_A_ok] [1])\<lparr>trace := classification_trace [1] @ classification_trace [1]\<rparr>) \<and>
   classified_by_state ((classifier_of (Some [node_A_ok]))\<lparr>classified_by_state := classified_A\<rparr>)
     = classified_A"
proof -
  have same: "nodes (store ((world_of [node_A_ok] [1])\<lparr>trace := classification_trace [1]\<rparr>))
     = nodes (store (world_of [node_A_ok] [1]))" by simp
  from classify_by_state_idempotent [OF single_run same repeated_run] single_run repeated_run same
  show ?thesis by simp
qed

end
